theory Spec2Isabelle
  imports Complex_Main "HOL-Library.AList"
begin

section \<open>Data model (src/interfaces.ts)\<close>

text \<open>
  The interfaces of the indexer. A JavaScript \<open>number\<close> that holds an amount, an output
  index or a block height is modelled as an unbounded \<open>int\<close>, and sums of such numbers as
  sums of integers: this is the arithmetic of doubles as long as every number involved is
  an integer below \<open>2^53\<close> in absolute value. The store's \<open>INTEGER\<close> columns reject
  everything outside 32 bits. The field \<open>value\<close> of an output is called \<open>val\<close>, and the
  \<open>id\<close> fields are called \<open>t_id\<close> and \<open>b_id\<close>.
\<close>

record Output =
  address :: string
  val :: int

record Input =
  txId :: string
  index :: int

record Transaction =
  t_id :: string
  inputs :: "Input list"
  outputs :: "Output list"

record Block =
  b_id :: string
  height :: int
  transactions :: "Transaction list"

subsection \<open>The values of the balance object\<close>

text \<open>
  \<open>balances\<close> is declared \<open>Record<string, number>\<close>, and it is a plain object made by
  \<open>{}\<close>: the declaration is not checked when the program runs. What a handler reads from
  it or writes to it is a number, \<open>NaN\<close>, a string (the store's driver hands a
  \<open>bigint\<close> such as \<open>SUM(value)\<close> over as its decimal text), an object or function that
  \<open>Object.prototype\<close> lends to every plain object (\<open>Obj\<close>, with the text it converts to), or
  \<open>undefined\<close>.
\<close>

datatype jsval = Num int | NotANumber | Str string | Obj string | Undefined

text \<open>\<open>n.toString()\<close> and the template literal \<open>`${n}`\<close> for an integer \<open>n\<close>.\<close>

definition digit_char :: "nat \<Rightarrow> char" where
  "digit_char d = char_of (48 + d)"

fun digits :: "nat \<Rightarrow> string" where
  "digits n = (if n < 10 then [digit_char n] else digits (n div 10) @ [digit_char (n mod 10)])"

declare digits.simps [simp del]

definition toString :: "int \<Rightarrow> string" where
  "toString i = (if i < 0 then CHR ''-'' # digits (nat (- i)) else digits (nat i))"

text \<open>
  The integer a text stands for, for a text made of an optional minus sign and decimal
  digits (the characters with codes 48 to 57). Both \<open>Number(s)\<close> and the store's reading
  of a parameter bound to an \<open>INTEGER\<close> column agree with it on every text over digits and
  minus signs, and on every text that begins with a letter or a bracket; no other text
  reaches them here, since the strings of the balance object are decimal sums of the
  store, or texts of inherited properties, followed by the decimal numbers that \<open>+\<close>
  appends (lemma \<open>plain_reachable\<close> below).
\<close>

definition is_digit :: "char \<Rightarrow> bool" where
  "is_digit c \<longleftrightarrow> 48 \<le> (of_char c :: nat) \<and> (of_char c :: nat) \<le> 57"

definition undigits :: "string \<Rightarrow> nat" where
  "undigits s = foldl (\<lambda>a c. 10 * a + (of_char c - 48)) 0 s"

definition read_int :: "string \<Rightarrow> int option" where
  "read_int s =
    (case s of
       [] \<Rightarrow> None
     | c # r \<Rightarrow>
         if c = CHR ''-'' then (if r \<noteq> [] \<and> list_all is_digit r then Some (- int (undigits r)) else None)
         else if list_all is_digit s then Some (int (undigits s))
         else None)"

text \<open>
  The properties every plain object inherits from \<open>Object.prototype\<close>, with the text each
  converts to: \<open>__proto__\<close> reads as the prototype object itself, the others as built-in
  functions (the white space inside the braces of their text is the engine's choice).
\<close>

definition native_function :: "string \<Rightarrow> string" where
  "native_function f = ''function '' @ f @ ''() { [native code] }''"

definition inherited :: "string \<Rightarrow> string option" where
  "inherited a =
    (if a = ''__proto__'' then Some ''[object Object]''
     else if a = ''constructor'' then Some (native_function ''Object'')
     else if a \<in> set [''hasOwnProperty'', ''isPrototypeOf'', ''propertyIsEnumerable'',
       ''toLocaleString'', ''toString'', ''valueOf'', ''__defineGetter__'', ''__defineSetter__'',
       ''__lookupGetter__'', ''__lookupSetter__'']
     then Some (native_function a)
     else None)"

text \<open>
  \<open>AppState\<close>: \<open>utxos\<close> is a \<open>Map<string, Output>\<close>, \<open>balances\<close> the object above; both are
  association lists of their own entries in insertion order, written with \<open>AList.update\<close>
  (replace in place, or append) and \<open>AList.delete\<close>.
\<close>

type_synonym utxo_map = "(string \<times> Output) list"
type_synonym balance_map = "(string \<times> jsval) list"

record AppState =
  blocks :: "Block list"
  currentHeight :: int
  balances :: balance_map
  utxos :: utxo_map

definition initial_state :: AppState where
  "initial_state = \<lparr>blocks = [], currentHeight = 0, balances = [], utxos = []\<rparr>"

text \<open>\<open>state.reset()\<close> of src/index.ts empties all four components.\<close>

definition reset_state :: "AppState \<Rightarrow> AppState" where
  "reset_state st = st\<lparr>blocks := [], currentHeight := 0, balances := [], utxos := []\<rparr>"

subsection \<open>Reading and writing the balance object\<close>

text \<open>\<open>balances[a]\<close>: the object's own entry, else what the prototype lends, else \<open>undefined\<close>.\<close>

definition get_prop :: "balance_map \<Rightarrow> string \<Rightarrow> jsval" where
  "get_prop bs a =
    (case map_of bs a of
       Some v \<Rightarrow> v
     | None \<Rightarrow> (case inherited a of Some t \<Rightarrow> Obj t | None \<Rightarrow> Undefined))"

text \<open>
  \<open>balances[a] = v\<close> for a primitive \<open>v\<close>: the name \<open>__proto__\<close> is an accessor of the
  prototype whose setter ignores every primitive, so nothing is stored; every other name
  becomes, or stays, an own entry.
\<close>

definition set_prop :: "balance_map \<Rightarrow> string \<Rightarrow> jsval \<Rightarrow> balance_map" where
  "set_prop bs a v = (if a = ''__proto__'' then bs else AList.update a v bs)"

text \<open>\<open>x || 0\<close>: \<open>0\<close>, \<open>NaN\<close>, the empty string and \<open>undefined\<close> give way to \<open>0\<close>.\<close>

definition truthy :: "jsval \<Rightarrow> bool" where
  "truthy x =
    (case x of Num n \<Rightarrow> n \<noteq> 0 | NotANumber \<Rightarrow> False | Str s \<Rightarrow> s \<noteq> [] | Obj t \<Rightarrow> True
     | Undefined \<Rightarrow> False)"

definition or_zero :: "jsval \<Rightarrow> jsval" where
  "or_zero x = (if truthy x then x else Num 0)"

text \<open>
  \<open>x + n\<close> for a number \<open>n\<close>: numbers are added; a string, or an object by its text, is
  concatenated with the decimal text of \<open>n\<close>.
\<close>

definition js_plus :: "jsval \<Rightarrow> int \<Rightarrow> jsval" where
  "js_plus x n =
    (case x of
       Num m \<Rightarrow> Num (m + n)
     | NotANumber \<Rightarrow> NotANumber
     | Str s \<Rightarrow> Str (s @ toString n)
     | Obj t \<Rightarrow> Str (t @ toString n)
     | Undefined \<Rightarrow> NotANumber)"

text \<open>\<open>x - n\<close>: \<open>x\<close> is converted to a number first; what is no number gives \<open>NaN\<close>.\<close>

definition to_number :: "jsval \<Rightarrow> int option" where
  "to_number x =
    (case x of
       Num m \<Rightarrow> Some m
     | Str s \<Rightarrow> if s = [] then Some 0 else read_int s
     | _ \<Rightarrow> None)"

definition js_minus :: "jsval \<Rightarrow> int \<Rightarrow> jsval" where
  "js_minus x n = (case to_number x of Some m \<Rightarrow> Num (m - n) | None \<Rightarrow> NotANumber)"

subsection \<open>UTXO keys\<close>

text \<open>The key \<open>`${txId}:${index}`\<close> of the UTXO map.\<close>

definition utxoKey :: "string \<Rightarrow> int \<Rightarrow> string" where
  "utxoKey tx i = tx @ '':'' @ toString i"

text \<open>\<open>forEach((output, index) => ...)\<close> visits the outputs with their positions.\<close>

definition indexed :: "'a list \<Rightarrow> (int \<times> 'a) list" where
  "indexed xs = zip (map int [0..<length xs]) xs"

section \<open>Block validation (src/routes/blocks.ts, lines 11--54)\<close>

datatype verror =
    FirstBlockHeight
  | InvalidHeight
  | InputNotFound string
  | ValueMismatch
  | InvalidBlockId string string string

text \<open>
  The inner loop over the inputs of one transaction: each key is looked up in the UTXO
  map of the state, the first missing key is reported, the values found are summed.
\<close>

fun check_inputs :: "utxo_map \<Rightarrow> Input list \<Rightarrow> int \<Rightarrow> verror + int" where
  "check_inputs u [] sumInputs = Inr sumInputs"
| "check_inputs u (i # rest) sumInputs =
    (case map_of u (utxoKey (txId i) (index i)) of
       None \<Rightarrow> Inl (InputNotFound (utxoKey (txId i) (index i)))
     | Some utxo \<Rightarrow> check_inputs u rest (sumInputs + val utxo))"

definition sumOutputs :: "Transaction \<Rightarrow> int" where
  "sumOutputs t = foldl (\<lambda>s out. s + val out) 0 (outputs t)"

text \<open>
  The outer loop: for each transaction in turn, its inputs are checked and then its sums
  are compared, before the next transaction is looked at.
\<close>

fun check_transactions :: "utxo_map \<Rightarrow> Transaction list \<Rightarrow> verror option" where
  "check_transactions u [] = None"
| "check_transactions u (t # ts) =
    (case check_inputs u (inputs t) 0 of
       Inl e \<Rightarrow> Some e
     | Inr sumInputs \<Rightarrow>
         if sumInputs \<noteq> sumOutputs t \<and> length (inputs t) > 0 then Some ValueMismatch
         else check_transactions u ts)"

definition dataToHash :: "Block \<Rightarrow> string" where
  "dataToHash b = foldl (\<lambda>d t. d @ t_id t) (toString (height b)) (transactions b)"

text \<open>
  The digest \<open>createHash('sha256').update(s).digest('hex')\<close> belongs to the platform's
  crypto library, not to this repository: it is the parameter \<open>H\<close> of the validator, and
  every theorem below holds for every function \<open>H\<close>.
\<close>

definition validate :: "(string \<Rightarrow> string) \<Rightarrow> AppState \<Rightarrow> Block \<Rightarrow> verror option" where
  "validate H st b =
    (if currentHeight st = 0 \<and> height b \<noteq> 1 then Some FirstBlockHeight
     else if currentHeight st \<noteq> 0 \<and> height b \<noteq> currentHeight st + 1 then Some InvalidHeight
     else case check_transactions (utxos st) (transactions b) of
       Some e \<Rightarrow> Some e
     | None \<Rightarrow>
         if b_id b \<noteq> H (dataToHash b)
         then Some (InvalidBlockId (H (dataToHash b)) (b_id b) (dataToHash b))
         else None)"

section \<open>The in-memory index\<close>

type_synonym mem = "utxo_map \<times> balance_map"

subsection \<open>Applying a block (src/routes/blocks.ts, lines 80--96)\<close>

definition spend_input :: "mem \<Rightarrow> Input \<Rightarrow> mem" where
  "spend_input m i =
    (let k = utxoKey (txId i) (index i) in
     (AList.delete k (fst m),
      case map_of (fst m) k of
        None \<Rightarrow> snd m
      | Some utxo \<Rightarrow>
          set_prop (snd m) (address utxo)
            (js_minus (or_zero (get_prop (snd m) (address utxo))) (val utxo))))"

definition add_output :: "string \<Rightarrow> mem \<Rightarrow> int \<times> Output \<Rightarrow> mem" where
  "add_output tid m p =
    (AList.update (utxoKey tid (fst p)) (snd p) (fst m),
     set_prop (snd m) (address (snd p))
       (js_plus (or_zero (get_prop (snd m) (address (snd p)))) (val (snd p))))"

definition apply_tx :: "mem \<Rightarrow> Transaction \<Rightarrow> mem" where
  "apply_tx m t = foldl (add_output (t_id t)) (foldl spend_input m (inputs t)) (indexed (outputs t))"

definition apply_block :: "mem \<Rightarrow> Block \<Rightarrow> mem" where
  "apply_block m b = foldl apply_tx m (transactions b)"

subsection \<open>Rebuilding from the kept blocks (src/routes/rollback.ts, lines 74--98)\<close>

text \<open>
  The loop rebuilds a UTXO map and a balance object from empty ones; the handler then uses
  the rebuilt UTXO map only.
\<close>

definition rebuild_input :: "mem \<Rightarrow> Input \<Rightarrow> mem" where
  "rebuild_input m i =
    (let k = utxoKey (txId i) (index i) in
     case map_of (fst m) k of
       None \<Rightarrow> m
     | Some utxo \<Rightarrow>
         (AList.delete k (fst m),
          set_prop (snd m) (address utxo)
            (js_minus (or_zero (get_prop (snd m) (address utxo))) (val utxo))))"

definition rebuild_tx :: "mem \<Rightarrow> Transaction \<Rightarrow> mem" where
  "rebuild_tx m t =
    foldl (add_output (t_id t)) (foldl rebuild_input m (inputs t)) (indexed (outputs t))"

definition rebuild :: "Block list \<Rightarrow> mem" where
  "rebuild keptBlocks = foldl (\<lambda>m b. foldl rebuild_tx m (transactions b)) ([], []) keptBlocks"

section \<open>The persistent store (schema of src/db/schema.ts, statements of the routes)\<close>

text \<open>
  The five relations. \<open>blocks_t\<close> holds \<open>(id, height)\<close>, \<open>transactions_t\<close> holds
  \<open>(id, block_id)\<close>, \<open>inputs_t\<close> holds \<open>(tx_id, spent_utxo_txid, spent_utxo_index)\<close>,
  \<open>balances_t\<close> holds \<open>(address, balance)\<close>. Timestamps and the serial key of \<open>inputs\<close>
  are left out: no statement of the routes reads them.
\<close>

record OutputRow =
  txid :: string
  idx :: int
  r_address :: string
  r_value :: int
  is_spent :: bool

record Tables =
  blocks_t :: "(string \<times> int) list"
  transactions_t :: "(string \<times> string) list"
  inputs_t :: "(string \<times> string \<times> int) list"
  outputs_t :: "OutputRow list"
  balances_t :: "(string \<times> int) list"

definition empty_tables :: Tables where
  "empty_tables =
    \<lparr>blocks_t = [], transactions_t = [], inputs_t = [], outputs_t = [], balances_t = []\<rparr>"

text \<open>The range of an \<open>INTEGER\<close> column.\<close>

definition int32 :: "int \<Rightarrow> bool" where
  "int32 v = (- 2147483648 \<le> v \<and> v \<le> 2147483647)"

text \<open>
  A parameter bound to an \<open>INTEGER\<close> column goes to the store as text: a number as its
  decimal text, a string as it is. The store raises unless the text stands for an integer
  in range.
\<close>

definition int4_param :: "jsval \<Rightarrow> int option" where
  "int4_param v =
    (case v of
       Num n \<Rightarrow> if int32 n then Some n else None
     | Str s \<Rightarrow> (case read_int s of Some n \<Rightarrow> if int32 n then Some n else None | None \<Rightarrow> None)
     | _ \<Rightarrow> None)"

text \<open>
  The statements the routes send, with their parameters. The balance of an upsert is an
  entry of the balance object; the balance of an insert is the text of a sum.
\<close>

datatype stmt =
    InsertBlock string int
  | InsertTransaction string string
  | InsertInput string string int
  | MarkSpent string int
  | InsertOutput string int string int
  | UpsertBalance string jsval
  | ResurrectSpentBy "string list"
  | DeleteOutputsOf "string list"
  | DeleteBlocksAbove int
  | DeleteInputsOf "string list"
  | DeleteBalances
  | InsertBalance string string
  | DeleteOutputs
  | DeleteInputs
  | DeleteTransactions
  | DeleteBlocks

text \<open>
  Deleting blocks cascades to their transactions and on to the inputs of those
  transactions (\<open>ON DELETE CASCADE\<close>); the relation \<open>outputs\<close> has no foreign key.
\<close>

definition cascade_blocks :: "string list \<Rightarrow> Tables \<Rightarrow> Tables" where
  "cascade_blocks gone tb =
    (let goneTxs = map fst (filter (\<lambda>r. snd r \<in> set gone) (transactions_t tb)) in
     tb\<lparr>transactions_t := filter (\<lambda>r. snd r \<notin> set gone) (transactions_t tb),
        inputs_t := filter (\<lambda>r. fst r \<notin> set goneTxs) (inputs_t tb)\<rparr>)"

text \<open>
  One statement on the tables; \<open>None\<close> is a statement the store refuses (a duplicate
  primary or unique key, a missing foreign key, a value outside \<open>INTEGER\<close>), which
  leaves the tables as they were.
\<close>

fun exec :: "stmt \<Rightarrow> Tables \<Rightarrow> Tables option" where
  "exec (InsertBlock i h) tb =
    (if i \<in> fst ` set (blocks_t tb) \<or> h \<in> snd ` set (blocks_t tb) \<or> \<not> int32 h then None
     else Some (tb\<lparr>blocks_t := blocks_t tb @ [(i, h)]\<rparr>))"
| "exec (InsertTransaction t b) tb =
    (if t \<in> fst ` set (transactions_t tb) \<or> b \<notin> fst ` set (blocks_t tb) then None
     else Some (tb\<lparr>transactions_t := transactions_t tb @ [(t, b)]\<rparr>))"
| "exec (InsertInput t st si) tb =
    (if t \<notin> fst ` set (transactions_t tb) \<or> \<not> int32 si then None
     else Some (tb\<lparr>inputs_t := inputs_t tb @ [(t, st, si)]\<rparr>))"
| "exec (MarkSpent t i) tb =
    Some (tb\<lparr>outputs_t :=
      map (\<lambda>r. if txid r = t \<and> idx r = i then r\<lparr>is_spent := True\<rparr> else r) (outputs_t tb)\<rparr>)"
| "exec (InsertOutput t i a v) tb =
    (if (t, i) \<in> (\<lambda>r. (txid r, idx r)) ` set (outputs_t tb) \<or> \<not> int32 i \<or> \<not> int32 v then None
     else Some (tb\<lparr>outputs_t := outputs_t tb @
       [\<lparr>txid = t, idx = i, r_address = a, r_value = v, is_spent = False\<rparr>]\<rparr>))"
| "exec (UpsertBalance a v) tb =
    (case int4_param v of
       None \<Rightarrow> None
     | Some n \<Rightarrow> Some (tb\<lparr>balances_t := AList.update a n (balances_t tb)\<rparr>))"
| "exec (ResurrectSpentBy txs) tb =
    Some (tb\<lparr>outputs_t :=
      map (\<lambda>r. if (txid r, idx r) \<in> snd ` set (filter (\<lambda>x. fst x \<in> set txs) (inputs_t tb))
                then r\<lparr>is_spent := False\<rparr> else r) (outputs_t tb)\<rparr>)"
| "exec (DeleteOutputsOf txs) tb =
    Some (tb\<lparr>outputs_t := filter (\<lambda>r. txid r \<notin> set txs) (outputs_t tb)\<rparr>)"
| "exec (DeleteBlocksAbove h) tb =
    Some (cascade_blocks (map fst (filter (\<lambda>r. snd r > h) (blocks_t tb)))
      (tb\<lparr>blocks_t := filter (\<lambda>r. \<not> snd r > h) (blocks_t tb)\<rparr>))"
| "exec (DeleteInputsOf txs) tb =
    Some (tb\<lparr>inputs_t := filter (\<lambda>r. fst r \<notin> set txs) (inputs_t tb)\<rparr>)"
| "exec DeleteBalances tb = Some (tb\<lparr>balances_t := []\<rparr>)"
| "exec (InsertBalance a v) tb =
    (case int4_param (Str v) of
       None \<Rightarrow> None
     | Some n \<Rightarrow>
         if a \<in> fst ` set (balances_t tb) then None
         else Some (tb\<lparr>balances_t := balances_t tb @ [(a, n)]\<rparr>))"
| "exec DeleteOutputs tb = Some (tb\<lparr>outputs_t := []\<rparr>)"
| "exec DeleteInputs tb = Some (tb\<lparr>inputs_t := []\<rparr>)"
| "exec DeleteTransactions tb =
    Some (tb\<lparr>transactions_t := [],
      inputs_t := filter (\<lambda>r. fst r \<notin> fst ` set (transactions_t tb)) (inputs_t tb)\<rparr>)"
| "exec DeleteBlocks tb =
    Some (cascade_blocks (map fst (blocks_t tb)) (tb\<lparr>blocks_t := []\<rparr>))"

text \<open>
  A store is its tables together with the number of statements it will still answer
  before its connection fails once (\<open>None\<close>: it never fails). No route opens a
  transaction, so every statement is committed on its own.
\<close>

type_synonym store = "Tables \<times> nat option"

definition tick :: "nat option \<Rightarrow> nat option" where
  "tick f = (case f of None \<Rightarrow> None | Some n \<Rightarrow> Some (n - 1))"

definition step :: "stmt \<Rightarrow> store \<Rightarrow> bool \<times> store" where
  "step q s =
    (if snd s = Some 0 then (False, (fst s, None))
     else case exec q (fst s) of
       None \<Rightarrow> (False, (fst s, tick (snd s)))
     | Some tb \<Rightarrow> (True, (tb, tick (snd s))))"

text \<open>
  A sequence of awaited statements inside \<open>try\<close>: the first one that raises ends the
  sequence, and what was executed before it stays.
\<close>

fun run :: "stmt list \<Rightarrow> store \<Rightarrow> bool \<times> store" where
  "run [] s = (True, s)"
| "run (q # qs) s = (case step q s of (False, s') \<Rightarrow> (False, s') | (True, s') \<Rightarrow> run qs s')"

definition query :: "(Tables \<Rightarrow> 'a option) \<Rightarrow> store \<Rightarrow> 'a option \<times> store" where
  "query g s =
    (if snd s = Some 0 then (None, (fst s, None)) else (g (fst s), (fst s, tick (snd s))))"

section \<open>POST /blocks (src/routes/blocks.ts)\<close>

datatype response = BlockAccepted int | BadRequest verror | DatabaseError

text \<open>Lines 58--78: the rows of the block, in the order the handler writes them.\<close>

definition persist_input :: "Transaction \<Rightarrow> Input \<Rightarrow> stmt list" where
  "persist_input tx i = [InsertInput (t_id tx) (txId i) (index i), MarkSpent (txId i) (index i)]"

definition persist_tx :: "Block \<Rightarrow> Transaction \<Rightarrow> stmt list" where
  "persist_tx b tx =
    InsertTransaction (t_id tx) (b_id b) #
    concat (map (persist_input tx) (inputs tx)) @
    map (\<lambda>p. InsertOutput (t_id tx) (fst p) (address (snd p)) (val (snd p))) (indexed (outputs tx))"

definition persist_block :: "Block \<Rightarrow> stmt list" where
  "persist_block b = InsertBlock (b_id b) (height b) # concat (map (persist_tx b) (transactions b))"

text \<open>
  \<open>Object.entries\<close> lists the own entries of an object: first the keys that are written
  as array indices (a decimal number below \<open>2^32 - 1\<close> with no leading zero) in ascending
  order, then all other keys in insertion order.
\<close>

definition is_index :: "string \<Rightarrow> bool" where
  "is_index k \<longleftrightarrow>
    k \<noteq> [] \<and> list_all is_digit k \<and> (hd k \<noteq> CHR ''0'' \<or> k = ''0'') \<and> undigits k < 4294967295"

definition entries :: "balance_map \<Rightarrow> (string \<times> jsval) list" where
  "entries bs =
    sort_key (\<lambda>p. undigits (fst p)) (filter (\<lambda>p. is_index (fst p)) bs) @
    filter (\<lambda>p. \<not> is_index (fst p)) bs"

text \<open>Lines 98--105: one upsert per own entry of the balance object, whatever its value.\<close>

definition persist_balances :: "balance_map \<Rightarrow> stmt list" where
  "persist_balances bs = map (\<lambda>p. UpsertBalance (fst p) (snd p)) (entries bs)"

text \<open>
  The handler. The rows are written first; then the UTXO map and the balance map are
  updated in place; then the balances are upserted; only then is the block pushed and
  the height set. A statement that raises is caught and answered with status 500,
  whatever has been written or updated by then.
\<close>

definition submit_block ::
  "(string \<Rightarrow> string) \<Rightarrow> AppState \<times> store \<Rightarrow> Block \<Rightarrow> response \<times> AppState \<times> store" where
  "submit_block H s block =
    (case validate H (fst s) block of
       Some e \<Rightarrow> (BadRequest e, s)
     | None \<Rightarrow>
        (case run (persist_block block) (snd s) of
           (False, db1) \<Rightarrow> (DatabaseError, fst s, db1)
         | (True, db1) \<Rightarrow>
            (let m = apply_block (utxos (fst s), balances (fst s)) block;
                 st1 = (fst s)\<lparr>utxos := fst m, balances := snd m\<rparr>
             in case run (persist_balances (balances st1)) db1 of
                  (False, db2) \<Rightarrow> (DatabaseError, st1, db2)
                | (True, db2) \<Rightarrow>
                    (BlockAccepted (height block),
                     st1\<lparr>blocks := blocks st1 @ [block], currentHeight := height block\<rparr>,
                     db2))))"

section \<open>POST /rollback (src/routes/rollback.ts)\<close>

text \<open>
  \<open>Number(request.query.height)\<close> is any JavaScript number: a finite one (every finite
  double is a rational), \<open>NaN\<close> or an infinity.
\<close>

datatype jsnum = Fin rat | NaN | PosInfinity | NegInfinity

datatype rollback_response =
  RollbackSuccessful int | InvalidHeightParam | TargetAboveHead | RollbackFailed

text \<open>
  A number bound to a parameter that is compared with an \<open>INTEGER\<close> column: the store
  raises unless it is written as an integer in range.
\<close>

definition sql_integer :: "jsnum \<Rightarrow> int option" where
  "sql_integer t =
    (case t of
       Fin q \<Rightarrow> if q = of_int \<lfloor>q\<rfloor> \<and> int32 \<lfloor>q\<rfloor> then Some \<lfloor>q\<rfloor> else None
     | _ \<Rightarrow> None)"

text \<open>Lines 19--25: the ids of the transactions of the blocks above the target.\<close>

definition select_deleted_txs :: "jsnum \<Rightarrow> Tables \<Rightarrow> string list option" where
  "select_deleted_txs t tb =
    (case sql_integer t of
       None \<Rightarrow> None
     | Some h \<Rightarrow>
         Some (concat (map (\<lambda>r. map (\<lambda>_. fst r)
           (filter (\<lambda>b. fst b = snd r \<and> snd b > h) (blocks_t tb))) (transactions_t tb))))"

text \<open>
  Lines 59--64: the sum of the unspent outputs of each address that has one (the order
  of the groups is the store's choice; here, the order of \<open>remdups\<close>). \<open>SUM\<close> of an
  \<open>INTEGER\<close> column is a \<open>bigint\<close>, which the driver returns as its decimal text: \<open>row.balance\<close>
  is a string. (A sum outside 64 bits, which needs more than \<open>2^32\<close> rows, is left out.)
\<close>

definition unspent :: "Tables \<Rightarrow> OutputRow list" where
  "unspent tb = filter (\<lambda>r. \<not> is_spent r) (outputs_t tb)"

definition select_unspent_sums :: "Tables \<Rightarrow> (string \<times> string) list option" where
  "select_unspent_sums tb =
    Some (map (\<lambda>a. (a, toString (sum_list (map r_value (filter (\<lambda>r. r_address r = a) (unspent tb))))))
      (remdups (map r_address (unspent tb))))"

text \<open>Lines 27--56: the statements that depend on the ids found.\<close>

definition undo_stmts :: "string list \<Rightarrow> int \<Rightarrow> stmt list" where
  "undo_stmts deletedTxIds h =
    (if length deletedTxIds > 0 then [ResurrectSpentBy deletedTxIds] else []) @
    (if length deletedTxIds > 0 then [DeleteOutputsOf deletedTxIds] else []) @
    [DeleteBlocksAbove h] @
    (if length deletedTxIds > 0 then [DeleteInputsOf deletedTxIds] else [])"

text \<open>
  Lines 68--72: \<open>newBalances[row.address] = row.balance\<close> on a fresh plain object, for
  each row; the value stored is the string the driver returned.
\<close>

definition newBalances :: "(string \<times> string) list \<Rightarrow> balance_map" where
  "newBalances rows = foldl (\<lambda>m r. set_prop m (fst r) (Str (snd r))) [] rows"

text \<open>
  The handler. Lines 103--104 delete every own entry of \<open>state.balances\<close> and copy the own
  entries of \<open>newBalances\<close> into it: the balance object then holds what \<open>newBalances\<close>
  holds.
\<close>

definition rollback ::
  "jsnum \<Rightarrow> AppState \<times> store \<Rightarrow> rollback_response \<times> AppState \<times> store" where
  "rollback targetHeight s =
    (case targetHeight of
       Fin q \<Rightarrow>
        if q < 1 then (InvalidHeightParam, s)
        else if q > of_int (currentHeight (fst s)) then (TargetAboveHead, s)
        else
         (case query (select_deleted_txs targetHeight) (snd s) of
            (None, db1) \<Rightarrow> (RollbackFailed, fst s, db1)
          | (Some deletedTxIds, db1) \<Rightarrow>
             (case run (undo_stmts deletedTxIds \<lfloor>q\<rfloor>) db1 of
                (False, db2) \<Rightarrow> (RollbackFailed, fst s, db2)
              | (True, db2) \<Rightarrow>
                 (case query select_unspent_sums db2 of
                    (None, db3) \<Rightarrow> (RollbackFailed, fst s, db3)
                  | (Some rows, db3) \<Rightarrow>
                     (case run (DeleteBalances # map (\<lambda>r. InsertBalance (fst r) (snd r)) rows) db3 of
                        (False, db4) \<Rightarrow> (RollbackFailed, fst s, db4)
                      | (True, db4) \<Rightarrow>
                         (let keptBlocks = filter (\<lambda>b. of_int (height b) \<le> q) (blocks (fst s))
                          in (RollbackSuccessful \<lfloor>q\<rfloor>,
                              \<lparr>blocks = keptBlocks, currentHeight = \<lfloor>q\<rfloor>,
                               balances = newBalances rows, utxos = fst (rebuild keptBlocks)\<rparr>,
                              db4))))))
     | _ \<Rightarrow> (InvalidHeightParam, s))"

section \<open>POST /reset (src/routes/additionalFunction.ts) and GET /balance (src/routes/balance.ts)\<close>

datatype reset_response = ResetSuccessful | ResetFailed

definition reset :: "AppState \<times> store \<Rightarrow> reset_response \<times> AppState \<times> store" where
  "reset s =
    (case run [DeleteOutputs, DeleteInputs, DeleteTransactions, DeleteBlocks, DeleteBalances] (snd s) of
       (False, db1) \<Rightarrow> (ResetFailed, fst s, db1)
     | (True, db1) \<Rightarrow> (ResetSuccessful, reset_state (fst s), db1))"

text \<open>The balance of an address is read from the store; no row means 0.\<close>

definition select_balance :: "string \<Rightarrow> Tables \<Rightarrow> int list option" where
  "select_balance a tb = Some (map snd (filter (\<lambda>r. fst r = a) (balances_t tb)))"

definition get_balance :: "string \<Rightarrow> store \<Rightarrow> int option" where
  "get_balance a db =
    (case fst (query (select_balance a) db) of
       None \<Rightarrow> None
     | Some rows \<Rightarrow> Some (if length rows > 0 then hd rows else 0))"

section \<open>Histories of accepted operations\<close>

datatype op = Submit Block | Rollback jsnum | Reset

text \<open>An operation is accepted when its handler answers with status 200.\<close>

fun accept :: "(string \<Rightarrow> string) \<Rightarrow> AppState \<times> store \<Rightarrow> op \<Rightarrow> (AppState \<times> store) option" where
  "accept H s (Submit b) =
    (case submit_block H s b of (BlockAccepted _, s') \<Rightarrow> Some s' | _ \<Rightarrow> None)"
| "accept H s (Rollback t) =
    (case rollback t s of (RollbackSuccessful _, s') \<Rightarrow> Some s' | _ \<Rightarrow> None)"
| "accept H s Reset =
    (case reset s of (ResetSuccessful, s') \<Rightarrow> Some s' | _ \<Rightarrow> None)"

fun play :: "(string \<Rightarrow> string) \<Rightarrow> op list \<Rightarrow> AppState \<times> store \<Rightarrow> (AppState \<times> store) option" where
  "play H [] s = Some s"
| "play H (x # xs) s = (case accept H s x of None \<Rightarrow> None | Some s' \<Rightarrow> play H xs s')"

text \<open>A fresh instance: an empty index over an empty store, with any fault budget.\<close>

definition fresh :: "nat option \<Rightarrow> AppState \<times> store" where
  "fresh f = (initial_state, (empty_tables, f))"

section \<open>Notions for the statements and proofs\<close>

definition utxo_total :: "utxo_map \<Rightarrow> string \<Rightarrow> int" where
  "utxo_total u a = sum_list (map (\<lambda>p. val (snd p)) (filter (\<lambda>p. address (snd p) = a) u))"

definition distinct_keys :: "mem \<Rightarrow> bool" where
  "distinct_keys m \<longleftrightarrow> distinct (map fst (fst m))"

definition in_keys :: "Transaction \<Rightarrow> string set" where
  "in_keys t = (\<lambda>i. utxoKey (txId i) (index i)) ` set (inputs t)"

definition new_entries :: "Transaction \<Rightarrow> (string \<times> Output) set" where
  "new_entries t = (\<lambda>p. (utxoKey (t_id t) (fst p), snd p)) ` set (indexed (outputs t))"

definition txs_of :: "Block list \<Rightarrow> Transaction list" where
  "txs_of J = concat (map transactions J)"

definition produced :: "Block list \<Rightarrow> (string \<times> int \<times> Output) set" where
  "produced J = (\<Union>t \<in> set (txs_of J). (\<lambda>p. (t_id t, fst p, snd p)) ` set (indexed (outputs t)))"

definition spent :: "Block list \<Rightarrow> (string \<times> int) set" where
  "spent J = (\<Union>t \<in> set (txs_of J). (\<lambda>i. (txId i, index i)) ` set (inputs t))"

definition unspent_entries :: "Block list \<Rightarrow> (string \<times> Output) set" where
  "unspent_entries J =
    (\<lambda>x. (utxoKey (fst x) (fst (snd x)), snd (snd x))) `
      {x \<in> produced J. (fst x, fst (snd x)) \<notin> spent J}"

definition block_ok :: "Block list \<Rightarrow> Block \<Rightarrow> bool" where
  "block_ok P b \<longleftrightarrow>
    height b = int (length P) + 1 \<and>
    b_id b \<notin> b_id ` set P \<and>
    distinct (map t_id (transactions b)) \<and>
    (\<forall>t \<in> set (transactions b). t_id t \<notin> t_id ` set (txs_of P)) \<and>
    (\<forall>t \<in> set (transactions b). in_keys t \<subseteq> fst ` set (fst (rebuild P)))"

definition good :: "Block list \<Rightarrow> bool" where
  "good J \<longleftrightarrow> (\<forall>k < length J. block_ok (take k J) (J ! k))"

fun exec_all :: "stmt list \<Rightarrow> Tables \<Rightarrow> Tables option" where
  "exec_all [] tb = Some tb"
| "exec_all (q # qs) tb = (case exec q tb of None \<Rightarrow> None | Some tb' \<Rightarrow> exec_all qs tb')"

definition mark :: "(string \<times> int) set \<Rightarrow> OutputRow \<Rightarrow> OutputRow" where
  "mark S r = (if (txid r, idx r) \<in> S then r\<lparr>is_spent := True\<rparr> else r)"

definition new_row :: "string \<Rightarrow> int \<times> Output \<Rightarrow> OutputRow" where
  "new_row tid p =
    \<lparr>txid = tid, idx = fst p, r_address = address (snd p), r_value = val (snd p), is_spent = False\<rparr>"

definition row_key :: "OutputRow \<Rightarrow> string \<times> int" where
  "row_key r = (txid r, idx r)"

definition refs :: "Transaction \<Rightarrow> (string \<times> int) set" where
  "refs t = (\<lambda>i. (txId i, index i)) ` set (inputs t)"

definition row_of :: "(string \<times> int) set \<Rightarrow> string \<times> int \<times> Output \<Rightarrow> OutputRow" where
  "row_of S x =
    \<lparr>txid = fst x, idx = fst (snd x), r_address = address (snd (snd x)),
     r_value = val (snd (snd x)), is_spent = ((fst x, fst (snd x)) \<in> S)\<rparr>"

definition db_ok :: "Block list \<Rightarrow> Tables \<Rightarrow> bool" where
  "db_ok J tb \<longleftrightarrow>
    set (blocks_t tb) = (\<lambda>b. (b_id b, height b)) ` set J \<and>
    set (transactions_t tb) = (\<Union>b \<in> set J. (\<lambda>t. (t_id t, b_id b)) ` set (transactions b)) \<and>
    set (inputs_t tb) = (\<Union>t \<in> set (txs_of J). (\<lambda>i. (t_id t, txId i, index i)) ` set (inputs t)) \<and>
    distinct (map row_key (outputs_t tb)) \<and>
    set (outputs_t tb) = row_of (spent J) ` produced J"

definition unmark :: "(string \<times> int) set \<Rightarrow> OutputRow \<Rightarrow> OutputRow" where
  "unmark R r = (if row_key r \<in> R then r\<lparr>is_spent := False\<rparr> else r)"

definition same_utxos :: "mem \<Rightarrow> mem \<Rightarrow> bool" where
  "same_utxos m m' \<longleftrightarrow> fst m = fst m'"

definition inv :: "AppState \<times> store \<Rightarrow> bool" where
  "inv s \<longleftrightarrow>
    good (blocks (fst s)) \<and>
    currentHeight (fst s) = int (length (blocks (fst s))) \<and>
    utxos (fst s) = fst (rebuild (blocks (fst s))) \<and>
    db_ok (blocks (fst s)) (fst (snd s))"

text \<open>
  The checks of the validator, one by one, and the two orders in which a block can be put
  through them: the order of the code, and the order in which all inputs of the block come
  before any comparison of sums.
\<close>

definition height_check :: "AppState \<Rightarrow> Block \<Rightarrow> verror option" where
  "height_check st b =
    (if currentHeight st = 0 then (if height b = 1 then None else Some FirstBlockHeight)
     else (if height b = currentHeight st + 1 then None else Some InvalidHeight))"

definition input_check :: "utxo_map \<Rightarrow> Input \<Rightarrow> verror option" where
  "input_check u i =
    (if utxoKey (txId i) (index i) \<in> fst ` set u then None
     else Some (InputNotFound (utxoKey (txId i) (index i))))"

definition inSum :: "utxo_map \<Rightarrow> Transaction \<Rightarrow> int" where
  "inSum u t =
    sum_list (map (\<lambda>i. case map_of u (utxoKey (txId i) (index i)) of None \<Rightarrow> 0 | Some utxo \<Rightarrow> val utxo)
      (inputs t))"

definition conservation_check :: "utxo_map \<Rightarrow> Transaction \<Rightarrow> verror option" where
  "conservation_check u t =
    (if inputs t \<noteq> [] \<and> inSum u t \<noteq> sum_list (map val (outputs t)) then Some ValueMismatch
     else None)"

definition identity_check :: "(string \<Rightarrow> string) \<Rightarrow> Block \<Rightarrow> verror option" where
  "identity_check H b =
    (let d = toString (height b) @ concat (map t_id (transactions b)) in
     if b_id b = H d then None else Some (InvalidBlockId (H d) (b_id b) d))"

definition first_failure :: "verror option list \<Rightarrow> verror option" where
  "first_failure cs = (case filter (\<lambda>c. c \<noteq> None) cs of [] \<Rightarrow> None | c # _ \<Rightarrow> c)"

definition checks_in_code_order :: "(string \<Rightarrow> string) \<Rightarrow> AppState \<Rightarrow> Block \<Rightarrow> verror option list" where
  "checks_in_code_order H st b =
    [height_check st b] @
    concat (map (\<lambda>t. map (input_check (utxos st)) (inputs t) @ [conservation_check (utxos st) t])
      (transactions b)) @
    [identity_check H b]"

definition checks_as_claimed :: "(string \<Rightarrow> string) \<Rightarrow> AppState \<Rightarrow> Block \<Rightarrow> verror option list" where
  "checks_as_claimed H st b =
    [height_check st b] @
    concat (map (\<lambda>t. map (input_check (utxos st)) (inputs t)) (transactions b)) @
    map (conservation_check (utxos st)) (transactions b) @
    [identity_check H b]"

text \<open>
  The texts that can stand in the balance object: digits and minus signs, or the text of a
  built-in function followed by anything; and the state a request leaves behind, whatever
  the answer.
\<close>

definition plain_text :: "string \<Rightarrow> bool" where
  "plain_text s \<longleftrightarrow>
    (s \<noteq> [] \<and> (\<forall>c \<in> set s. is_digit c \<or> c = CHR ''-'')) \<or> (\<exists>f r. s = native_function f @ r)"

definition plain_value :: "jsval \<Rightarrow> bool" where
  "plain_value v =
    (case v of Num n \<Rightarrow> True | NotANumber \<Rightarrow> True | Str s \<Rightarrow> plain_text s | Obj t \<Rightarrow> False
     | Undefined \<Rightarrow> False)"

definition plain_values :: "balance_map \<Rightarrow> bool" where
  "plain_values bs \<longleftrightarrow> (\<forall>p \<in> set bs. plain_value (snd p))"

definition respond :: "(string \<Rightarrow> string) \<Rightarrow> AppState \<times> store \<Rightarrow> op \<Rightarrow> AppState \<times> store" where
  "respond H s x =
    (case x of
       Submit b \<Rightarrow> snd (submit_block H s b)
     | Rollback t \<Rightarrow> snd (rollback t s)
     | Reset \<Rightarrow> snd (reset s))"

section \<open>Example blocks and states\<close>

text \<open>
  Closed examples need a concrete digest function. They use only that equal inputs have
  equal digests and that the finitely many distinct hash inputs of an example have distinct
  digests, as they have under SHA-256.
\<close>

definition example_digest :: "string \<Rightarrow> string" where
  "example_digest s = ''sha256('' @ s @ '')''"

definition block1 :: Block where
  "block1 = \<lparr>b_id = example_digest ''1tx1'', height = 1, transactions =
     [\<lparr>t_id = ''tx1'', inputs = [], outputs = [\<lparr>address = ''addr1'', val = 10\<rparr>]\<rparr>]\<rparr>"

definition block2 :: Block where
  "block2 = \<lparr>b_id = example_digest ''2tx2'', height = 2, transactions =
     [\<lparr>t_id = ''tx2'', inputs = [\<lparr>txId = ''tx1'', index = 0\<rparr>],
       outputs = [\<lparr>address = ''addr2'', val = 4\<rparr>, \<lparr>address = ''addr3'', val = 6\<rparr>]\<rparr>]\<rparr>"

definition block3 :: Block where
  "block3 = \<lparr>b_id = example_digest ''3tx3'', height = 3, transactions =
     [\<lparr>t_id = ''tx3'', inputs = [\<lparr>txId = ''tx2'', index = 1\<rparr>],
       outputs = [\<lparr>address = ''addr4'', val = 2\<rparr>, \<lparr>address = ''addr5'', val = 2\<rparr>,
         \<lparr>address = ''addr6'', val = 2\<rparr>]\<rparr>]\<rparr>"

definition mismatch_then_ghost :: Block where
  "mismatch_then_ghost = \<lparr>b_id = example_digest ''2txAtxB'', height = 2, transactions =
     [\<lparr>t_id = ''txA'', inputs = [\<lparr>txId = ''tx1'', index = 0\<rparr>],
        outputs = [\<lparr>address = ''bob'', val = 50\<rparr>]\<rparr>,
      \<lparr>t_id = ''txB'', inputs = [\<lparr>txId = ''ghost'', index = 0\<rparr>],
        outputs = [\<lparr>address = ''carol'', val = 1\<rparr>]\<rparr>]\<rparr>"

definition duplicate_tx_block :: Block where
  "duplicate_tx_block = \<lparr>b_id = example_digest ''1dupdup'', height = 1, transactions =
     [\<lparr>t_id = ''dup'', inputs = [], outputs = [\<lparr>address = ''alice'', val = 1\<rparr>]\<rparr>,
      \<lparr>t_id = ''dup'', inputs = [], outputs = [\<lparr>address = ''alice'', val = 2\<rparr>]\<rparr>]\<rparr>"

definition overflow_block :: Block where
  "overflow_block = \<lparr>b_id = example_digest ''1big'', height = 1, transactions =
     [\<lparr>t_id = ''big'', inputs = [],
        outputs = [\<lparr>address = ''alice'', val = 2147483647\<rparr>, \<lparr>address = ''alice'', val = 1\<rparr>]\<rparr>]\<rparr>"

definition double_spend_block :: Block where
  "double_spend_block = \<lparr>b_id = example_digest ''2txAtxB'', height = 2, transactions =
     [\<lparr>t_id = ''txA'', inputs = [\<lparr>txId = ''tx1'', index = 0\<rparr>],
        outputs = [\<lparr>address = ''bob'', val = 10\<rparr>]\<rparr>,
      \<lparr>t_id = ''txB'', inputs = [\<lparr>txId = ''tx1'', index = 0\<rparr>],
        outputs = [\<lparr>address = ''carol'', val = 10\<rparr>]\<rparr>]\<rparr>"

definition same_block_spend :: Block where
  "same_block_spend = \<lparr>b_id = example_digest ''1t1t2'', height = 1, transactions =
     [\<lparr>t_id = ''t1'', inputs = [], outputs = [\<lparr>address = ''alice'', val = 5\<rparr>]\<rparr>,
      \<lparr>t_id = ''t2'', inputs = [\<lparr>txId = ''ghost'', index = 0\<rparr>, \<lparr>txId = ''t1'', index = 0\<rparr>],
        outputs = [\<lparr>address = ''bob'', val = 5\<rparr>]\<rparr>]\<rparr>"

definition empty_block :: "int \<Rightarrow> Block" where
  "empty_block h = \<lparr>b_id = example_digest (toString h), height = h, transactions = []\<rparr>"

definition colliding_chain :: "Block list" where
  "colliding_chain =
    \<lparr>b_id = example_digest ''10'', height = 1, transactions =
       [\<lparr>t_id = ''0'', inputs = [], outputs = [\<lparr>address = ''alice'', val = 1\<rparr>]\<rparr>]\<rparr> #
    map empty_block [2, 3, 4, 5, 6, 7, 8, 9]"

definition index3 :: AppState where
  "index3 = \<lparr>blocks = [block1, block2, block3], currentHeight = 3,
     balances = [(''addr1'', Num 0), (''addr2'', Num 4), (''addr3'', Num 0), (''addr4'', Num 2), (''addr5'', Num 2),
       (''addr6'', Num 2)],
     utxos = [(''tx2:0'', \<lparr>address = ''addr2'', val = 4\<rparr>),
       (''tx3:0'', \<lparr>address = ''addr4'', val = 2\<rparr>),
       (''tx3:1'', \<lparr>address = ''addr5'', val = 2\<rparr>),
       (''tx3:2'', \<lparr>address = ''addr6'', val = 2\<rparr>)]\<rparr>"

definition tables3 :: Tables where
  "tables3 = \<lparr>blocks_t = [(b_id block1, 1), (b_id block2, 2), (b_id block3, 3)],
     transactions_t = [(''tx1'', b_id block1), (''tx2'', b_id block2), (''tx3'', b_id block3)],
     inputs_t = [(''tx2'', ''tx1'', 0), (''tx3'', ''tx2'', 1)],
     outputs_t =
       [\<lparr>txid = ''tx1'', idx = 0, r_address = ''addr1'', r_value = 10, is_spent = True\<rparr>,
        \<lparr>txid = ''tx2'', idx = 0, r_address = ''addr2'', r_value = 4, is_spent = False\<rparr>,
        \<lparr>txid = ''tx2'', idx = 1, r_address = ''addr3'', r_value = 6, is_spent = True\<rparr>,
        \<lparr>txid = ''tx3'', idx = 0, r_address = ''addr4'', r_value = 2, is_spent = False\<rparr>,
        \<lparr>txid = ''tx3'', idx = 1, r_address = ''addr5'', r_value = 2, is_spent = False\<rparr>,
        \<lparr>txid = ''tx3'', idx = 2, r_address = ''addr6'', r_value = 2, is_spent = False\<rparr>],
     balances_t = [(''addr1'', 0), (''addr2'', 4), (''addr3'', 0), (''addr4'', 2), (''addr5'', 2),
       (''addr6'', 2)]\<rparr>"

definition index2r :: AppState where
  "index2r = \<lparr>blocks = [block1, block2], currentHeight = 2,
     balances = [(''addr2'', Str ''4''), (''addr3'', Str ''6'')],
     utxos = [(''tx2:0'', \<lparr>address = ''addr2'', val = 4\<rparr>),
       (''tx2:1'', \<lparr>address = ''addr3'', val = 6\<rparr>)]\<rparr>"

definition tables2r :: Tables where
  "tables2r = \<lparr>blocks_t = [(b_id block1, 1), (b_id block2, 2)],
     transactions_t = [(''tx1'', b_id block1), (''tx2'', b_id block2)],
     inputs_t = [(''tx2'', ''tx1'', 0)],
     outputs_t =
       [\<lparr>txid = ''tx1'', idx = 0, r_address = ''addr1'', r_value = 10, is_spent = True\<rparr>,
        \<lparr>txid = ''tx2'', idx = 0, r_address = ''addr2'', r_value = 4, is_spent = False\<rparr>,
        \<lparr>txid = ''tx2'', idx = 1, r_address = ''addr3'', r_value = 6, is_spent = False\<rparr>],
     balances_t = [(''addr2'', 4), (''addr3'', 6)]\<rparr>"

definition index1 :: AppState where
  "index1 = \<lparr>blocks = [block1], currentHeight = 1, balances = [(''addr1'', Num 10)],
     utxos = [(''tx1:0'', \<lparr>address = ''addr1'', val = 10\<rparr>)]\<rparr>"

definition index2 :: AppState where
  "index2 = \<lparr>blocks = [block1, block2], currentHeight = 2,
     balances = [(''addr1'', Num 0), (''addr2'', Num 4), (''addr3'', Num 6)],
     utxos = [(''tx2:0'', \<lparr>address = ''addr2'', val = 4\<rparr>),
       (''tx2:1'', \<lparr>address = ''addr3'', val = 6\<rparr>)]\<rparr>"

definition tables2 :: Tables where
  "tables2 = \<lparr>blocks_t = [(b_id block1, 1), (b_id block2, 2)],
     transactions_t = [(''tx1'', b_id block1), (''tx2'', b_id block2)],
     inputs_t = [(''tx2'', ''tx1'', 0)],
     outputs_t =
       [\<lparr>txid = ''tx1'', idx = 0, r_address = ''addr1'', r_value = 10, is_spent = True\<rparr>,
        \<lparr>txid = ''tx2'', idx = 0, r_address = ''addr2'', r_value = 4, is_spent = False\<rparr>,
        \<lparr>txid = ''tx2'', idx = 1, r_address = ''addr3'', r_value = 6, is_spent = False\<rparr>],
     balances_t = [(''addr1'', 0), (''addr2'', 4), (''addr3'', 6)]\<rparr>"

definition tables2_interrupted :: Tables where
  "tables2_interrupted = tables2\<lparr>outputs_t :=
       [\<lparr>txid = ''tx1'', idx = 0, r_address = ''addr1'', r_value = 10, is_spent = False\<rparr>,
        \<lparr>txid = ''tx2'', idx = 0, r_address = ''addr2'', r_value = 4, is_spent = False\<rparr>,
        \<lparr>txid = ''tx2'', idx = 1, r_address = ''addr3'', r_value = 6, is_spent = False\<rparr>]\<rparr>"

definition tables_duplicate_tx :: Tables where
  "tables_duplicate_tx = \<lparr>blocks_t = [(b_id duplicate_tx_block, 1)],
     transactions_t = [(''dup'', b_id duplicate_tx_block)], inputs_t = [],
     outputs_t = [\<lparr>txid = ''dup'', idx = 0, r_address = ''alice'', r_value = 1, is_spent = False\<rparr>],
     balances_t = []\<rparr>"

definition index_overflow :: AppState where
  "index_overflow = \<lparr>blocks = [], currentHeight = 0, balances = [(''alice'', Num 2147483648)],
     utxos = [(''big:0'', \<lparr>address = ''alice'', val = 2147483647\<rparr>),
       (''big:1'', \<lparr>address = ''alice'', val = 1\<rparr>)]\<rparr>"

definition tables_overflow :: Tables where
  "tables_overflow = \<lparr>blocks_t = [(b_id overflow_block, 1)],
     transactions_t = [(''big'', b_id overflow_block)], inputs_t = [],
     outputs_t =
       [\<lparr>txid = ''big'', idx = 0, r_address = ''alice'', r_value = 2147483647, is_spent = False\<rparr>,
        \<lparr>txid = ''big'', idx = 1, r_address = ''alice'', r_value = 1, is_spent = False\<rparr>],
     balances_t = []\<rparr>"

definition coin_t1 :: Transaction where
  "coin_t1 = \<lparr>t_id = ''t1'', inputs = [], outputs = [\<lparr>address = ''alice'', val = 5\<rparr>]\<rparr>"

definition spend_t2 :: Transaction where
  "spend_t2 = \<lparr>t_id = ''t2'', inputs = [\<lparr>txId = ''t1'', index = 0\<rparr>],
     outputs = [\<lparr>address = ''bob'', val = 5\<rparr>]\<rparr>"

definition chained_block :: Block where
  "chained_block = \<lparr>b_id = example_digest ''1t1t2'', height = 1, transactions = [coin_t1, spend_t2]\<rparr>"

definition chained_block_reversed :: Block where
  "chained_block_reversed =
    \<lparr>b_id = example_digest ''1t2t1'', height = 1, transactions = [spend_t2, coin_t1]\<rparr>"

definition index_double_spend :: AppState where
  "index_double_spend = \<lparr>blocks = [block1, double_spend_block], currentHeight = 2,
     balances = [(''addr1'', Num 0), (''bob'', Num 10), (''carol'', Num 10)],
     utxos = [(''txA:0'', \<lparr>address = ''bob'', val = 10\<rparr>),
       (''txB:0'', \<lparr>address = ''carol'', val = 10\<rparr>)]\<rparr>"

definition tables_double_spend :: Tables where
  "tables_double_spend = \<lparr>blocks_t = [(b_id block1, 1), (b_id double_spend_block, 2)],
     transactions_t = [(''tx1'', b_id block1), (''txA'', b_id double_spend_block),
       (''txB'', b_id double_spend_block)],
     inputs_t = [(''txA'', ''tx1'', 0), (''txB'', ''tx1'', 0)],
     outputs_t =
       [\<lparr>txid = ''tx1'', idx = 0, r_address = ''addr1'', r_value = 10, is_spent = True\<rparr>,
        \<lparr>txid = ''txA'', idx = 0, r_address = ''bob'', r_value = 10, is_spent = False\<rparr>,
        \<lparr>txid = ''txB'', idx = 0, r_address = ''carol'', r_value = 10, is_spent = False\<rparr>],
     balances_t = [(''addr1'', 0), (''bob'', 10), (''carol'', 10)]\<rparr>"

definition block3b :: Block where
  "block3b = \<lparr>b_id = example_digest ''3tx3b'', height = 3, transactions =
     [\<lparr>t_id = ''tx3b'', inputs = [\<lparr>txId = ''tx2'', index = 1\<rparr>],
       outputs = [\<lparr>address = ''addr2'', val = 6\<rparr>]\<rparr>]\<rparr>"

definition proto_block :: Block where
  "proto_block = \<lparr>b_id = example_digest ''1txp'', height = 1, transactions =
     [\<lparr>t_id = ''txp'', inputs = [], outputs = [\<lparr>address = ''__proto__'', val = 10\<rparr>]\<rparr>]\<rparr>"

section \<open>Lemmas\<close>

lemma of_char_digit_char: "d < 10 \<Longrightarrow> of_char (digit_char d) = (48 + d :: nat)"
  by (simp add: digit_char_def)

lemma undigits_digits: "undigits (digits n) = n"
proof (induction n rule: digits.induct)
  case (1 n)
  show ?case
  proof (cases "n < 10")
    case True
    then show ?thesis
      by (subst digits.simps) (simp add: undigits_def of_char_digit_char)
  next
    case False
    have "undigits (digits (n div 10) @ [digit_char (n mod 10)]) = 10 * (n div 10) + n mod 10"
      using 1 [OF False] by (simp add: undigits_def of_char_digit_char)
    with False show ?thesis
      by (subst digits.simps) simp
  qed
qed

lemma digits_inj: "digits m = digits n \<Longrightarrow> m = n"
  by (metis undigits_digits)

lemma set_digits: "set (digits n) \<subseteq> digit_char ` {0..<10}"
proof (induction n rule: digits.induct)
  case (1 n)
  show ?case
  proof (cases "n < 10")
    case True
    then show ?thesis by (subst digits.simps) simp
  next
    case False
    with 1 show ?thesis by (subst digits.simps) auto
  qed
qed

lemma digits_not_Nil: "digits n \<noteq> []"
  by (subst digits.simps) simp

lemma digit_char_neq: "d < 10 \<Longrightarrow> digit_char d \<noteq> CHR '':'' \<and> digit_char d \<noteq> CHR ''-''"
proof -
  assume d: "d < 10"
  have "of_char (digit_char d) \<noteq> (58::nat)" "of_char (digit_char d) \<noteq> (45::nat)"
    using d by (simp_all add: of_char_digit_char)
  then show ?thesis by auto
qed

lemma colon_notin_digits: "CHR '':'' \<notin> set (digits n)"
  using set_digits [of n] digit_char_neq by fastforce

lemma minus_notin_digits: "CHR ''-'' \<notin> set (digits n)"
  using set_digits [of n] digit_char_neq by fastforce

lemma is_digit_digit_char: "d < 10 \<Longrightarrow> is_digit (digit_char d)"
  by (simp add: is_digit_def of_char_digit_char)

lemma digits_all_digit: "list_all is_digit (digits n)"
  using set_digits [of n] is_digit_digit_char by (auto simp: list_all_iff)



lemma colon_notin_toString: "CHR '':'' \<notin> set (toString i)"
  by (simp add: toString_def colon_notin_digits)

lemma toString_inj: "toString i = toString j \<Longrightarrow> i = j"
proof -
  assume eq: "toString i = toString j"
  have neg: "CHR ''-'' # digits a \<noteq> digits b" for a b
    using minus_notin_digits [of b] by (metis list.set_intros(1))
  show ?thesis
  proof (cases "i < 0")
    case True
    show ?thesis
    proof (cases "j < 0")
      case True
      with \<open>i < 0\<close> eq have "nat (- i) = nat (- j)"
        by (auto simp: toString_def dest: digits_inj)
      with True \<open>i < 0\<close> show ?thesis by simp
    next
      case False
      with \<open>i < 0\<close> eq neg show ?thesis by (auto simp: toString_def)
    qed
  next
    case False
    show ?thesis
    proof (cases "j < 0")
      case True
      with False eq neg [of "nat (- j)" "nat i"] show ?thesis by (auto simp: toString_def)
    next
      case jn: False
      with False eq have "nat i = nat j"
        by (auto simp: toString_def dest: digits_inj)
      with False jn show ?thesis by simp
    qed
  qed
qed

lemma split_at_last:
  assumes "a @ c # x = b @ c # y" and "c \<notin> set x" and "c \<notin> set y"
  shows "a = b \<and> x = y"
proof -
  have "takeWhile (\<lambda>z. z \<noteq> c) (rev (a @ c # x)) = rev x"
    using assms(2) by (auto simp add: takeWhile_tail)
  moreover have "takeWhile (\<lambda>z. z \<noteq> c) (rev (b @ c # y)) = rev y"
    using assms(3) by (auto simp add: takeWhile_tail)
  ultimately have "x = y" using assms(1) by (metis rev_is_rev_conv)
  with assms(1) show ?thesis by simp
qed

lemma utxoKey_inj: "utxoKey t i = utxoKey t' i' \<longleftrightarrow> t = t' \<and> i = i'"
proof
  assume "utxoKey t i = utxoKey t' i'"
  then have "t @ CHR '':'' # toString i = t' @ CHR '':'' # toString i'"
    by (simp add: utxoKey_def)
  then have "t = t' \<and> toString i = toString i'"
    by (rule split_at_last) (rule colon_notin_toString)+
  then show "t = t' \<and> i = i'" by (auto dest: toString_inj)
qed simp

lemma update_fresh: "k \<notin> fst ` set al \<Longrightarrow> AList.update k v al = al @ [(k, v)]"
  by (induction al) auto

lemma set_delete: "set (AList.delete k al) = {p \<in> set al. fst p \<noteq> k}"
  by (auto simp: AList.delete_eq)

lemma spend_input_rebuild: "spend_input m i = rebuild_input m i"
proof (cases "map_of (fst m) (utxoKey (txId i) (index i))")
  case None
  then have "utxoKey (txId i) (index i) \<notin> fst ` set (fst m)"
    by (simp add: map_of_eq_None_iff)
  with None show ?thesis
    by (simp add: spend_input_def rebuild_input_def)
next
  case (Some a)
  then show ?thesis by (simp add: spend_input_def rebuild_input_def)
qed

lemma distinct_keys_spend: "distinct_keys m \<Longrightarrow> distinct_keys (spend_input m i)"
  by (simp add: spend_input_def distinct_keys_def distinct_delete Let_def)

lemma set_spend:
  "set (fst (spend_input m i)) = {p \<in> set (fst m). fst p \<noteq> utxoKey (txId i) (index i)}"
  by (simp add: spend_input_def set_delete Let_def)

lemma spend_inputs:
  "distinct_keys m \<Longrightarrow>
   distinct_keys (foldl spend_input m is) \<and>
   set (fst (foldl spend_input m is)) =
     {p \<in> set (fst m). fst p \<notin> (\<lambda>i. utxoKey (txId i) (index i)) ` set is}"
proof (induction "is" arbitrary: m)
  case Nil
  then show ?case by simp
next
  case (Cons i "is")
  from Cons.IH [OF distinct_keys_spend [OF Cons.prems, of i]] show ?case
    by (auto simp: set_spend)
qed

lemma distinct_keys_add:
  assumes "distinct_keys m" and "utxoKey tid (fst p) \<notin> fst ` set (fst m)"
  shows "distinct_keys (add_output tid m p)"
    and "set (fst (add_output tid m p)) = insert (utxoKey tid (fst p), snd p) (set (fst m))"
  using assms
  by (auto simp: add_output_def distinct_keys_def update_fresh)

lemma add_outputs:
  assumes "distinct_keys m" and "distinct (map fst ps)"
    and "\<forall>p \<in> set ps. utxoKey tid (fst p) \<notin> fst ` set (fst m)"
  shows "distinct_keys (foldl (add_output tid) m ps) \<and>
    set (fst (foldl (add_output tid) m ps)) =
      set (fst m) \<union> (\<lambda>p. (utxoKey tid (fst p), snd p)) ` set ps"
  using assms
proof (induction ps arbitrary: m)
  case Nil
  then show ?case by simp
next
  case (Cons p ps)
  have fresh: "utxoKey tid (fst p) \<notin> fst ` set (fst m)" using Cons.prems by simp
  note step = distinct_keys_add [OF Cons.prems(1) fresh]
  have "\<forall>q \<in> set ps. utxoKey tid (fst q) \<notin> fst ` set (fst (add_output tid m p))"
  proof
    fix q assume q: "q \<in> set ps"
    have "fst p \<notin> set (map fst ps)" using Cons.prems(2) by simp
    moreover have "fst q \<in> set (map fst ps)" using q by simp
    ultimately have "fst q \<noteq> fst p" by metis
    then have "utxoKey tid (fst q) \<noteq> utxoKey tid (fst p)"
      by (simp add: utxoKey_inj)
    moreover have "utxoKey tid (fst q) \<notin> fst ` set (fst m)" using Cons.prems(3) q by simp
    ultimately show "utxoKey tid (fst q) \<notin> fst ` set (fst (add_output tid m p))"
      by (simp add: step(2))
  qed
  with Cons.IH [OF step(1)] Cons.prems(2) show ?case
    by (auto simp: step(2))
qed

lemma distinct_indexed: "distinct (map fst (indexed xs))"
  by (simp add: indexed_def distinct_map inj_on_def)

lemma apply_tx_step:
  assumes "distinct_keys m"
    and "\<forall>j. utxoKey (t_id t) j \<notin> fst ` set (fst m)"
  shows "distinct_keys (apply_tx m t) \<and>
    set (fst (apply_tx m t)) = {p \<in> set (fst m). fst p \<notin> in_keys t} \<union> new_entries t"
proof -
  let ?m = "foldl spend_input m (inputs t)"
  note a = spend_inputs [OF assms(1), of "inputs t"]
  have "\<forall>p \<in> set (indexed (outputs t)). utxoKey (t_id t) (fst p) \<notin> fst ` set (fst ?m)"
    using a assms(2) by auto
  from add_outputs [OF conjunct1 [OF a] distinct_indexed this] a show ?thesis
    by (auto simp: apply_tx_def in_keys_def new_entries_def)
qed

lemma apply_txs_step:
  assumes "distinct_keys m" and "distinct (map t_id txs)"
    and "\<forall>t \<in> set txs. \<forall>j. utxoKey (t_id t) j \<notin> fst ` set (fst m)"
    and "\<forall>t \<in> set txs. \<forall>t' \<in> set txs. \<forall>j. utxoKey (t_id t) j \<notin> in_keys t'"
  shows "distinct_keys (foldl apply_tx m txs) \<and>
    set (fst (foldl apply_tx m txs)) =
      {p \<in> set (fst m). fst p \<notin> \<Union> (in_keys ` set txs)} \<union> \<Union> (new_entries ` set txs)"
  using assms
proof (induction txs arbitrary: m)
  case Nil
  then show ?case by simp
next
  case (Cons t ts)
  have f: "\<forall>j. utxoKey (t_id t) j \<notin> fst ` set (fst m)" using Cons.prems(3) by simp
  note st = apply_tx_step [OF Cons.prems(1) f]
  have fresh: "\<forall>t' \<in> set ts. \<forall>j. utxoKey (t_id t') j \<notin> fst ` set (fst (apply_tx m t))"
  proof (intro ballI allI)
    fix t' j assume t': "t' \<in> set ts"
    then have "t_id t' \<in> set (map t_id ts)" by simp
    moreover have "t_id t \<notin> set (map t_id ts)" using Cons.prems(2) by simp
    ultimately have "t_id t' \<noteq> t_id t" by metis
    then have "utxoKey (t_id t') j \<notin> fst ` new_entries t"
      by (auto simp: new_entries_def utxoKey_inj)
    moreover have "utxoKey (t_id t') j \<notin> fst ` set (fst m)" using Cons.prems(3) t' by simp
    ultimately show "utxoKey (t_id t') j \<notin> fst ` set (fst (apply_tx m t))"
      using st by auto
  qed
  have ih: "distinct_keys (foldl apply_tx (apply_tx m t) ts) \<and>
    set (fst (foldl apply_tx (apply_tx m t) ts)) =
      {p \<in> set (fst (apply_tx m t)). fst p \<notin> \<Union> (in_keys ` set ts)} \<union> \<Union> (new_entries ` set ts)"
    using Cons.prems by (intro Cons.IH [OF conjunct1 [OF st] _ fresh]) auto
  have new_kept: "\<forall>p \<in> new_entries t. fst p \<notin> \<Union> (in_keys ` set ts)"
    using Cons.prems(4) by (auto simp: new_entries_def)
  show ?case
    using ih st new_kept by auto
qed

lemma good_Nil: "good []"
  by (simp add: good_def)

lemma good_snoc: "good (J @ [b]) \<longleftrightarrow> good J \<and> block_ok J b"
proof -
  have "(\<forall>k < Suc (length J). block_ok (take k (J @ [b])) ((J @ [b]) ! k)) \<longleftrightarrow>
        (\<forall>k < length J. block_ok (take k (J @ [b])) ((J @ [b]) ! k)) \<and>
        block_ok (take (length J) (J @ [b])) ((J @ [b]) ! length J)"
    by (auto simp: less_Suc_eq)
  then show ?thesis
    by (simp add: good_def nth_append)
qed

lemma good_take: "good J \<Longrightarrow> good (take k J)"
  by (simp add: good_def min_def)

lemma rebuild_tx_apply: "rebuild_tx = apply_tx"
proof -
  have "rebuild_input = spend_input"
    by (intro ext) (simp add: spend_input_rebuild)
  then show ?thesis
    by (intro ext) (simp add: rebuild_tx_def apply_tx_def)
qed

lemma rebuild_Nil: "rebuild [] = ([], [])"
  by (simp add: rebuild_def)

lemma rebuild_snoc: "rebuild (J @ [b]) = apply_block (rebuild J) b"
  by (simp add: rebuild_def apply_block_def rebuild_tx_apply)

lemma txs_of_append: "txs_of (J @ K) = txs_of J @ txs_of K"
  by (simp add: txs_of_def)

lemma txs_of_single: "txs_of [b] = transactions b"
  by (simp add: txs_of_def)

lemma produced_append: "produced (J @ K) = produced J \<union> produced K"
  by (simp add: produced_def txs_of_append)

lemma spent_append: "spent (J @ K) = spent J \<union> spent K"
  by (simp add: spent_def txs_of_append)

lemma produced_txid: "(t, i, out) \<in> produced J \<Longrightarrow> t \<in> t_id ` set (txs_of J)"
  by (auto simp: produced_def)

lemma in_unspent_entries:
  "p \<in> unspent_entries J \<longleftrightarrow>
   (\<exists>t i out. p = (utxoKey t i, out) \<and> (t, i, out) \<in> produced J \<and> (t, i) \<notin> spent J)"
  by (auto simp: unspent_entries_def image_iff)

lemma key_in_unspent_entries:
  "k \<in> fst ` unspent_entries J \<longleftrightarrow>
   (\<exists>t i out. k = utxoKey t i \<and> (t, i, out) \<in> produced J \<and> (t, i) \<notin> spent J)"
  by (force simp: in_unspent_entries image_iff)

lemma new_entries_produced:
  "\<Union> (new_entries ` set (transactions b)) =
   (\<lambda>x. (utxoKey (fst x) (fst (snd x)), snd (snd x))) ` produced [b]"
  by (simp add: new_entries_def produced_def txs_of_single image_UN image_image)

lemma in_keys_spent:
  "\<Union> (in_keys ` set (transactions b)) = (\<lambda>x. utxoKey (fst x) (snd x)) ` spent [b]"
  by (simp add: in_keys_def spent_def txs_of_single image_UN image_image)

lemma rebuild_good:
  "good J \<Longrightarrow>
   distinct_keys (rebuild J) \<and> set (fst (rebuild J)) = unspent_entries J \<and>
   fst ` spent J \<subseteq> t_id ` set (txs_of J)"
proof (induction J rule: rev_induct)
  case Nil
  show ?case
    by (simp add: rebuild_Nil distinct_keys_def unspent_entries_def produced_def spent_def
        txs_of_def)
next
  case (snoc b J)
  from snoc.prems have gJ: "good J" and ok: "block_ok J b"
    by (simp_all add: good_snoc)
  from snoc.IH [OF gJ] have cons: "distinct_keys (rebuild J)"
    and U: "set (fst (rebuild J)) = unspent_entries J"
    and sp: "fst ` spent J \<subseteq> t_id ` set (txs_of J)"
    by simp_all
  let ?txs = "transactions b"
  from ok have dist: "distinct (map t_id ?txs)"
    and freshid: "\<forall>t \<in> set ?txs. t_id t \<notin> t_id ` set (txs_of J)"
    and ins: "\<forall>t \<in> set ?txs. in_keys t \<subseteq> fst ` set (fst (rebuild J))"
    by (simp_all add: block_ok_def)
  have fresh: "\<forall>t \<in> set ?txs. \<forall>j. utxoKey (t_id t) j \<notin> fst ` set (fst (rebuild J))"
  proof (intro ballI allI notI)
    fix t j assume t: "t \<in> set ?txs" and "utxoKey (t_id t) j \<in> fst ` set (fst (rebuild J))"
    then obtain t' i out where "utxoKey (t_id t) j = utxoKey t' i" "(t', i, out) \<in> produced J"
      unfolding U key_in_unspent_entries by blast
    then have "t_id t \<in> t_id ` set (txs_of J)"
      by (auto simp: utxoKey_inj dest: produced_txid)
    with freshid t show False by blast
  qed
  have noself: "\<forall>t \<in> set ?txs. \<forall>t' \<in> set ?txs. \<forall>j. utxoKey (t_id t) j \<notin> in_keys t'"
    using fresh ins by blast
  from apply_txs_step [OF cons dist fresh noself]
  have cons': "distinct_keys (rebuild (J @ [b]))"
    and U': "set (fst (rebuild (J @ [b]))) =
      {p \<in> unspent_entries J. fst p \<notin> \<Union> (in_keys ` set ?txs)} \<union> \<Union> (new_entries ` set ?txs)"
    by (simp_all add: rebuild_snoc apply_block_def U)
  have spb: "\<forall>x \<in> spent [b]. utxoKey (fst x) (snd x) \<in> fst ` unspent_entries J"
    using ins in_keys_spent [of b] U by blast
  have spb_id: "fst ` spent [b] \<subseteq> t_id ` set (txs_of J)"
  proof
    fix t assume "t \<in> fst ` spent [b]"
    then obtain i where ti: "(t, i) \<in> spent [b]" by auto
    from bspec [OF spb ti] have "utxoKey t i \<in> fst ` unspent_entries J" by simp
    then obtain t' i' out where "utxoKey t i = utxoKey t' i'" "(t', i', out) \<in> produced J"
      unfolding key_in_unspent_entries by blast
    then show "t \<in> t_id ` set (txs_of J)"
      by (auto simp: utxoKey_inj dest: produced_txid)
  qed
  have newid: "\<forall>x \<in> produced [b]. fst x \<notin> t_id ` set (txs_of J)"
    using freshid by (auto simp: produced_def txs_of_single)
  have "{p \<in> unspent_entries J. fst p \<notin> \<Union> (in_keys ` set ?txs)} \<union> \<Union> (new_entries ` set ?txs)
      = unspent_entries (J @ [b])" (is "?L = ?R")
  proof (intro set_eqI iffI)
    fix p assume "p \<in> ?L"
    then consider (old) "p \<in> unspent_entries J" "fst p \<notin> \<Union> (in_keys ` set ?txs)"
      | (new) "p \<in> \<Union> (new_entries ` set ?txs)" by blast
    then show "p \<in> ?R"
    proof cases
      case old
      then obtain t i out where p: "p = (utxoKey t i, out)" "(t, i, out) \<in> produced J"
        "(t, i) \<notin> spent J" unfolding in_unspent_entries by blast
      have "(t, i) \<notin> spent [b]"
      proof
        assume "(t, i) \<in> spent [b]"
        then have "utxoKey t i \<in> (\<lambda>x. utxoKey (fst x) (snd x)) ` spent [b]" by force
        with old(2) p(1) show False by (simp add: in_keys_spent)
      qed
      with p show ?thesis
        unfolding in_unspent_entries by (auto simp: produced_append spent_append)
    next
      case new
      then obtain t i out where p: "p = (utxoKey t i, out)" "(t, i, out) \<in> produced [b]"
        unfolding new_entries_produced by force
      with newid have t: "t \<notin> t_id ` set (txs_of J)" by force
      with sp have "(t, i) \<notin> spent J" by force
      moreover from t spb_id have "(t, i) \<notin> spent [b]" by force
      ultimately show ?thesis using p
        unfolding in_unspent_entries by (auto simp: produced_append spent_append)
    qed
  next
    fix p assume "p \<in> ?R"
    then obtain t i out where p: "p = (utxoKey t i, out)" "(t, i, out) \<in> produced J \<union> produced [b]"
      "(t, i) \<notin> spent J" "(t, i) \<notin> spent [b]"
      unfolding in_unspent_entries by (auto simp: produced_append spent_append)
    from p(2) show "p \<in> ?L"
    proof
      assume old: "(t, i, out) \<in> produced J"
      with p have "p \<in> unspent_entries J" unfolding in_unspent_entries by blast
      moreover have "fst p \<notin> \<Union> (in_keys ` set ?txs)"
      proof
        assume "fst p \<in> \<Union> (in_keys ` set ?txs)"
        then obtain x where "x \<in> spent [b]" "utxoKey t i = utxoKey (fst x) (snd x)"
          unfolding in_keys_spent using p(1) by auto
        then have "(t, i) \<in> spent [b]" by (simp add: utxoKey_inj)
        with p(4) show False by simp
      qed
      ultimately show ?thesis by blast
    next
      assume "(t, i, out) \<in> produced [b]"
      then have "p \<in> \<Union> (new_entries ` set ?txs)"
        unfolding new_entries_produced using p(1) by force
      then show ?thesis by blast
    qed
  qed
  with U' have "set (fst (rebuild (J @ [b]))) = unspent_entries (J @ [b])" by simp
  moreover have "fst ` spent (J @ [b]) \<subseteq> t_id ` set (txs_of (J @ [b]))"
    using sp spb_id by (auto simp: spent_append txs_of_append)
  ultimately show ?case using cons' by simp
qed

lemma run_True: "run qs s = (True, s') \<Longrightarrow> exec_all qs (fst s) = Some (fst s')"
proof (induction qs arbitrary: s)
  case Nil
  then show ?case by simp
next
  case (Cons q qs)
  then show ?case
    by (auto simp: step_def split: if_splits option.splits prod.splits bool.splits)
qed

lemma query_Some: "query g s = (Some x, s') \<Longrightarrow> g (fst s) = Some x \<and> fst s' = fst s"
  by (auto simp: query_def split: if_splits)

lemma exec_all_append:
  "exec_all (xs @ ys) tb = Some tb'' \<longleftrightarrow>
   (\<exists>tb'. exec_all xs tb = Some tb' \<and> exec_all ys tb' = Some tb'')"
  by (induction xs arbitrary: tb) (auto split: option.splits)

lemma mark_key [simp]: "row_key (mark S r) = row_key r"
  by (simp add: mark_def row_key_def)

lemma mark_mark: "mark S (mark S' r) = mark (S' \<union> S) r"
  by (auto simp: mark_def)

lemma mark_empty: "mark {} r = r"
  by (simp add: mark_def)

lemma exec_inputs:
  "exec_all (concat (map (persist_input tx) is)) tb = Some tb' \<Longrightarrow>
   blocks_t tb' = blocks_t tb \<and> transactions_t tb' = transactions_t tb \<and>
   balances_t tb' = balances_t tb \<and>
   inputs_t tb' = inputs_t tb @ map (\<lambda>i. (t_id tx, txId i, index i)) is \<and>
   outputs_t tb' = map (mark ((\<lambda>i. (txId i, index i)) ` set is)) (outputs_t tb)"
proof (induction "is" arbitrary: tb)
  case Nil
  then show ?case by (simp add: mark_empty)
next
  case (Cons i "is")
  let ?tb1 = "tb\<lparr>inputs_t := inputs_t tb @ [(t_id tx, txId i, index i)]\<rparr>"
  let ?tb2 = "?tb1\<lparr>outputs_t := map (mark {(txId i, index i)}) (outputs_t tb)\<rparr>"
  have m: "(\<lambda>r. if txid r = txId i \<and> idx r = index i then r\<lparr>is_spent := True\<rparr> else r)
      = mark {(txId i, index i)}"
    by (auto simp: mark_def)
  from Cons.prems have "exec_all (concat (map (persist_input tx) is)) ?tb2 = Some tb'"
    by (simp add: persist_input_def [of tx i] m split: if_splits)
  from Cons.IH [OF this] show ?case
    by (simp add: mark_mark)
qed

lemma exec_outputs:
  "exec_all (map (\<lambda>p. InsertOutput tid (fst p) (address (snd p)) (val (snd p))) ps) tb = Some tb' \<Longrightarrow>
   blocks_t tb' = blocks_t tb \<and> transactions_t tb' = transactions_t tb \<and>
   balances_t tb' = balances_t tb \<and> inputs_t tb' = inputs_t tb \<and>
   outputs_t tb' = outputs_t tb @ map (new_row tid) ps"
proof (induction ps arbitrary: tb)
  case Nil
  then show ?case by simp
next
  case (Cons p ps)
  let ?tb1 = "tb\<lparr>outputs_t := outputs_t tb @ [new_row tid p]\<rparr>"
  from Cons.prems
  have "exec_all (map (\<lambda>p. InsertOutput tid (fst p) (address (snd p)) (val (snd p))) ps) ?tb1
      = Some tb'"
    by (simp add: new_row_def split: if_splits)
  from Cons.IH [OF this] show ?case
    by simp
qed

lemma exec_outputs_distinct:
  "exec_all (map (\<lambda>p. InsertOutput tid (fst p) (address (snd p)) (val (snd p)))
     (ps :: (int \<times> Output) list)) tb = Some tb' \<Longrightarrow>
   distinct (map row_key (outputs_t tb)) \<Longrightarrow> distinct (map row_key (outputs_t tb'))"
proof (induction ps arbitrary: tb)
  case Nil
  then show ?case by simp
next
  case (Cons p ps)
  let ?tb1 = "tb\<lparr>outputs_t := outputs_t tb @ [new_row tid p]\<rparr>"
  from Cons.prems(1) have fresh: "(tid, fst p) \<notin> row_key ` set (outputs_t tb)"
    and rest: "exec_all (map (\<lambda>p. InsertOutput tid (fst p) (address (snd p)) (val (snd p))) ps) ?tb1
      = Some tb'"
    by (simp_all add: new_row_def row_key_def split: if_splits)
  have "row_key (new_row tid p) = (tid, fst p)"
    by (simp add: new_row_def row_key_def)
  with fresh Cons.prems(2) have "distinct (map row_key (outputs_t ?tb1))"
    by simp
  from Cons.IH [OF rest this] show ?case .
qed

lemma exec_tx:
  assumes "exec_all (persist_tx b tx) tb = Some tb'"
  shows "t_id tx \<notin> fst ` set (transactions_t tb)"
    and "blocks_t tb' = blocks_t tb" and "balances_t tb' = balances_t tb"
    and "transactions_t tb' = transactions_t tb @ [(t_id tx, b_id b)]"
    and "inputs_t tb' = inputs_t tb @ map (\<lambda>i. (t_id tx, txId i, index i)) (inputs tx)"
    and "outputs_t tb' =
      map (mark (refs tx)) (outputs_t tb) @ map (new_row (t_id tx)) (indexed (outputs tx))"
    and "distinct (map row_key (outputs_t tb)) \<Longrightarrow> distinct (map row_key (outputs_t tb'))"
proof -
  let ?tb1 = "tb\<lparr>transactions_t := transactions_t tb @ [(t_id tx, b_id b)]\<rparr>"
  from assms have f: "t_id tx \<notin> fst ` set (transactions_t tb)"
    and r: "exec_all (concat (map (persist_input tx) (inputs tx)) @
      map (\<lambda>p. InsertOutput (t_id tx) (fst p) (address (snd p)) (val (snd p))) (indexed (outputs tx)))
      ?tb1 = Some tb'"
    by (simp_all add: persist_tx_def split: if_splits)
  from r obtain tb2 where a: "exec_all (concat (map (persist_input tx) (inputs tx))) ?tb1 = Some tb2"
    and c: "exec_all (map (\<lambda>p. InsertOutput (t_id tx) (fst p) (address (snd p)) (val (snd p)))
      (indexed (outputs tx))) tb2 = Some tb'"
    unfolding exec_all_append by blast
  note ea = exec_inputs [OF a]
  note ec = exec_outputs [OF c]
  show "t_id tx \<notin> fst ` set (transactions_t tb)" by (rule f)
  show "blocks_t tb' = blocks_t tb" using ea ec by simp
  show "balances_t tb' = balances_t tb" using ea ec by simp
  show "transactions_t tb' = transactions_t tb @ [(t_id tx, b_id b)]" using ea ec by simp
  show "inputs_t tb' = inputs_t tb @ map (\<lambda>i. (t_id tx, txId i, index i)) (inputs tx)"
    using ea ec by simp
  show "outputs_t tb' =
      map (mark (refs tx)) (outputs_t tb) @ map (new_row (t_id tx)) (indexed (outputs tx))"
    using ea ec by (simp add: refs_def)
  show "distinct (map row_key (outputs_t tb'))" if "distinct (map row_key (outputs_t tb))"
  proof -
    have "map row_key (outputs_t tb2) = map row_key (outputs_t tb)"
      using ea by simp
    with that have "distinct (map row_key (outputs_t tb2))" by simp
    from exec_outputs_distinct [OF c this] show ?thesis .
  qed
qed

lemma exec_txs_plain:
  "exec_all (concat (map (persist_tx b) txs)) tb = Some tb' \<Longrightarrow>
   distinct (map t_id txs) \<and> (\<forall>t \<in> set txs. t_id t \<notin> fst ` set (transactions_t tb)) \<and>
   blocks_t tb' = blocks_t tb \<and> balances_t tb' = balances_t tb \<and>
   transactions_t tb' = transactions_t tb @ map (\<lambda>t. (t_id t, b_id b)) txs \<and>
   inputs_t tb' =
     inputs_t tb @ concat (map (\<lambda>t. map (\<lambda>i. (t_id t, txId i, index i)) (inputs t)) txs) \<and>
   (distinct (map row_key (outputs_t tb)) \<longrightarrow> distinct (map row_key (outputs_t tb')))"
proof (induction txs arbitrary: tb)
  case Nil
  then show ?case by simp
next
  case (Cons t ts)
  from Cons.prems obtain tb1 where a: "exec_all (persist_tx b t) tb = Some tb1"
    and r: "exec_all (concat (map (persist_tx b) ts)) tb1 = Some tb'"
    by (auto simp: exec_all_append)
  note et = exec_tx [OF a]
  from Cons.IH [OF r] et show ?case
    by (auto simp: image_iff)
qed

lemma exec_txs_outputs:
  assumes "exec_all (concat (map (persist_tx b) txs)) tb = Some tb'"
    and "t_id ` set txs \<subseteq> T" and "\<forall>t \<in> set txs. \<forall>x \<in> refs t. fst x \<notin> T"
  shows "outputs_t tb' =
    map (mark (\<Union> (refs ` set txs))) (outputs_t tb) @
    concat (map (\<lambda>t. map (new_row (t_id t)) (indexed (outputs t))) txs)"
  using assms
proof (induction txs arbitrary: tb)
  case Nil
  then show ?case by (simp add: mark_empty)
next
  case (Cons t ts)
  from Cons.prems(1) obtain tb1 where a: "exec_all (persist_tx b t) tb = Some tb1"
    and r: "exec_all (concat (map (persist_tx b) ts)) tb1 = Some tb'"
    by (auto simp: exec_all_append)
  note et = exec_tx(6) [OF a]
  have ih: "outputs_t tb' =
    map (mark (\<Union> (refs ` set ts))) (outputs_t tb1) @
    concat (map (\<lambda>t. map (new_row (t_id t)) (indexed (outputs t))) ts)"
    using Cons.prems by (intro Cons.IH [OF r]) auto
  have keep: "mark (\<Union> (refs ` set ts)) (new_row (t_id t) p) = new_row (t_id t) p" for p
  proof -
    have "t_id t \<in> T" using Cons.prems(2) by simp
    moreover have "\<forall>x \<in> \<Union> (refs ` set ts). fst x \<notin> T" using Cons.prems(3) by auto
    ultimately have "(t_id t, fst p) \<notin> \<Union> (refs ` set ts)" by force
    then show ?thesis by (simp add: mark_def new_row_def)
  qed
  show ?case
    by (simp add: ih et mark_mark keep)
qed

lemma db_ok_empty: "db_ok [] empty_tables"
  by (simp add: db_ok_def empty_tables_def txs_of_def produced_def)

lemma in_keys_refs: "in_keys t = (\<lambda>x. utxoKey (fst x) (snd x)) ` refs t"
  by (simp add: in_keys_def refs_def image_image)

lemma spent_refs: "spent J = \<Union> (refs ` set (txs_of J))"
  by (simp add: spent_def refs_def)

lemma refs_in_journal:
  assumes "good J" and "in_keys t \<subseteq> fst ` set (fst (rebuild J))"
  shows "fst ` refs t \<subseteq> t_id ` set (txs_of J)"
proof
  fix x assume "x \<in> fst ` refs t"
  then obtain i where "(x, i) \<in> refs t" by auto
  then have "utxoKey x i \<in> in_keys t" unfolding in_keys_refs by force
  with assms(2) rebuild_good [OF assms(1)] have "utxoKey x i \<in> fst ` unspent_entries J"
    by auto
  then obtain t' i' out where "utxoKey x i = utxoKey t' i'" "(t', i', out) \<in> produced J"
    unfolding key_in_unspent_entries by blast
  then show "x \<in> t_id ` set (txs_of J)"
    by (auto simp: utxoKey_inj dest: produced_txid)
qed

lemma txids_db: "db_ok J tb \<Longrightarrow> fst ` set (transactions_t tb) = t_id ` set (txs_of J)"
  by (auto simp: db_ok_def txs_of_def image_iff) force+

lemma mark_row_of: "mark S (row_of S' x) = row_of (S' \<union> S) x"
  by (simp add: mark_def row_of_def)

lemma new_row_row_of: "new_row tid p = row_of {} (tid, fst p, snd p)"
  by (simp add: new_row_def row_of_def)

lemma row_of_cong: "((fst x, fst (snd x)) \<in> S \<longleftrightarrow> (fst x, fst (snd x)) \<in> S') \<Longrightarrow> row_of S x = row_of S' x"
  by (simp add: row_of_def)

lemma exec_upserts:
  "exec_all (map (\<lambda>p. UpsertBalance (fst p) (snd p)) ps) tb = Some tb' \<Longrightarrow>
   blocks_t tb' = blocks_t tb \<and> transactions_t tb' = transactions_t tb \<and>
   inputs_t tb' = inputs_t tb \<and> outputs_t tb' = outputs_t tb"
proof (induction ps arbitrary: tb)
  case Nil
  then show ?case by simp
next
  case (Cons p ps)
  from Cons.prems obtain n
    where "exec_all (map (\<lambda>p. UpsertBalance (fst p) (snd p)) ps)
      (tb\<lparr>balances_t := AList.update (fst p) n (balances_t tb)\<rparr>) = Some tb'"
    by (auto split: option.splits)
  from Cons.IH [OF this] show ?case by simp
qed

lemma exec_balances:
  "exec_all (persist_balances bs) tb = Some tb' \<Longrightarrow>
   blocks_t tb' = blocks_t tb \<and> transactions_t tb' = transactions_t tb \<and>
   inputs_t tb' = inputs_t tb \<and> outputs_t tb' = outputs_t tb"
  unfolding persist_balances_def by (rule exec_upserts)

lemma db_ok_frame:
  "blocks_t tb' = blocks_t tb \<and> transactions_t tb' = transactions_t tb \<and>
   inputs_t tb' = inputs_t tb \<and> outputs_t tb' = outputs_t tb \<Longrightarrow> db_ok J tb' = db_ok J tb"
  by (simp add: db_ok_def)

lemma db_submit:
  assumes g: "good J" and db: "db_ok J tb"
    and ex: "exec_all (persist_block b) tb = Some tb'"
    and h: "height b = int (length J) + 1"
    and ins: "\<forall>t \<in> set (transactions b). in_keys t \<subseteq> fst ` set (fst (rebuild J))"
  shows "block_ok J b" and "db_ok (J @ [b]) tb'"
proof -
  let ?txs = "transactions b"
  let ?tb0 = "tb\<lparr>blocks_t := blocks_t tb @ [(b_id b, height b)]\<rparr>"
  from ex have idf: "b_id b \<notin> fst ` set (blocks_t tb)"
    and r: "exec_all (concat (map (persist_tx b) ?txs)) ?tb0 = Some tb'"
    by (simp_all add: persist_block_def split: if_splits)
  from db have bl: "set (blocks_t tb) = (\<lambda>b. (b_id b, height b)) ` set J"
    and tr: "set (transactions_t tb) = (\<Union>b \<in> set J. (\<lambda>t. (t_id t, b_id b)) ` set (transactions b))"
    and inp: "set (inputs_t tb) = (\<Union>t \<in> set (txs_of J). (\<lambda>i. (t_id t, txId i, index i)) ` set (inputs t))"
    and di: "distinct (map row_key (outputs_t tb))"
    and out: "set (outputs_t tb) = row_of (spent J) ` produced J"
    by (simp_all add: db_ok_def)
  note pl = exec_txs_plain [OF r]
  from pl have dist: "distinct (map t_id ?txs)" by simp
  from pl have "\<forall>t \<in> set ?txs. t_id t \<notin> fst ` set (transactions_t tb)" by simp
  then have fresh: "\<forall>t \<in> set ?txs. t_id t \<notin> t_id ` set (txs_of J)"
    by (simp add: txids_db [OF db])
  have idfresh: "b_id b \<notin> b_id ` set J"
    using idf bl by (simp add: image_image)
  show ok: "block_ok J b"
    using h idfresh dist fresh ins by (simp add: block_ok_def)
  have refsJ: "\<forall>t \<in> set ?txs. fst ` refs t \<subseteq> t_id ` set (txs_of J)"
    using refs_in_journal [OF g] ins by blast
  have noself: "\<forall>t \<in> set ?txs. \<forall>x \<in> refs t. fst x \<notin> t_id ` set ?txs"
  proof (intro ballI notI)
    fix t x assume t: "t \<in> set ?txs" and x: "x \<in> refs t" and "fst x \<in> t_id ` set ?txs"
    then obtain t' where t': "t' \<in> set ?txs" "fst x = t_id t'" by auto
    from refsJ t x have "fst x \<in> t_id ` set (txs_of J)" by blast
    with fresh t' show False by simp
  qed
  from exec_txs_outputs [OF r subset_refl noself]
  have o': "outputs_t tb' =
      map (mark (\<Union> (refs ` set ?txs))) (outputs_t tb) @
      concat (map (\<lambda>t. map (new_row (t_id t)) (indexed (outputs t))) ?txs)"
    by simp
  have spb: "\<Union> (refs ` set ?txs) = spent [b]"
    by (simp add: spent_refs txs_of_single)
  from rebuild_good [OF g] have spJ: "fst ` spent J \<subseteq> t_id ` set (txs_of J)" by simp
  have spbJ: "fst ` spent [b] \<subseteq> t_id ` set (txs_of J)"
    using refsJ unfolding spb [symmetric] by auto
  have newrows: "set (concat (map (\<lambda>t. map (new_row (t_id t)) (indexed (outputs t))) ?txs))
      = row_of (spent (J @ [b])) ` produced [b]"
  proof -
    have "set (concat (map (\<lambda>t. map (new_row (t_id t)) (indexed (outputs t))) ?txs))
        = row_of {} ` produced [b]"
      by (simp add: produced_def txs_of_single image_UN image_image new_row_row_of)
    also have "\<dots> = row_of (spent (J @ [b])) ` produced [b]"
    proof (rule image_cong [OF refl])
      fix x assume "x \<in> produced [b]"
      then obtain t' where "t' \<in> set ?txs" "fst x = t_id t'"
        by (auto simp: produced_def txs_of_single)
      with fresh have "fst x \<notin> t_id ` set (txs_of J)" by metis
      with spJ spbJ have "(fst x, fst (snd x)) \<notin> spent (J @ [b])"
        by (force simp: spent_append)
      then show "row_of {} x = row_of (spent (J @ [b])) x"
        by (intro row_of_cong) simp
    qed
    finally show ?thesis .
  qed
  have oldrows: "mark (spent [b]) ` set (outputs_t tb) = row_of (spent (J @ [b])) ` produced J"
    by (simp add: out image_image mark_row_of spent_append)
  have "set (outputs_t tb') = row_of (spent (J @ [b])) ` produced (J @ [b])"
    unfolding o' spb using newrows oldrows by (simp add: produced_append image_Un)
  moreover have "distinct (map row_key (outputs_t tb'))"
    using pl di by simp
  moreover have "set (blocks_t tb') = (\<lambda>b. (b_id b, height b)) ` set (J @ [b])"
    using pl bl by auto
  moreover have "set (transactions_t tb') =
      (\<Union>b \<in> set (J @ [b]). (\<lambda>t. (t_id t, b_id b)) ` set (transactions b))"
    using pl tr by auto
  moreover have "set (inputs_t tb') =
      (\<Union>t \<in> set (txs_of (J @ [b])). (\<lambda>i. (t_id t, txId i, index i)) ` set (inputs t))"
    using pl inp by (auto simp: txs_of_append txs_of_single)
  ultimately show "db_ok (J @ [b]) tb'"
    by (simp add: db_ok_def)
qed

lemma unmark_row_of: "unmark R (row_of S x) = row_of (S - R) x"
  by (simp add: unmark_def row_of_def row_key_def)

lemma unmark_key [simp]: "row_key (unmark R r) = row_key r"
  by (simp add: unmark_def row_key_def)

lemma unmark_txid [simp]: "txid (unmark R r) = txid r"
  by (simp add: unmark_def)

lemma unmark_eq: "(\<lambda>r. if (txid r, idx r) \<in> S then r\<lparr>is_spent := False\<rparr> else r) = unmark S"
  by (auto simp: unmark_def row_key_def)

lemma undo_tables:
  assumes "exec_all (undo_stmts D h) tb = Some tb'"
  defines "gone \<equiv> map fst (filter (\<lambda>r. snd r > h) (blocks_t tb))"
  defines "goneTxs \<equiv> map fst (filter (\<lambda>r. snd r \<in> set gone) (transactions_t tb))"
  defines "R \<equiv> snd ` set (filter (\<lambda>x. fst x \<in> set D) (inputs_t tb))"
  shows "blocks_t tb' = filter (\<lambda>r. \<not> snd r > h) (blocks_t tb)"
    and "transactions_t tb' = filter (\<lambda>r. snd r \<notin> set gone) (transactions_t tb)"
    and "inputs_t tb' =
      filter (\<lambda>r. fst r \<notin> set D) (filter (\<lambda>r. fst r \<notin> set goneTxs) (inputs_t tb))"
    and "outputs_t tb' = filter (\<lambda>r. txid r \<notin> set D) (map (unmark R) (outputs_t tb))"
    and "balances_t tb' = balances_t tb"
proof -
  have e: "map (unmark {}) xs = xs" for xs
    by (induction xs) (simp_all add: unmark_def)
  have "tb' = cascade_blocks gone
      (tb\<lparr>outputs_t := filter (\<lambda>r. txid r \<notin> set D) (map (unmark R) (outputs_t tb)),
          blocks_t := filter (\<lambda>r. \<not> snd r > h) (blocks_t tb)\<rparr>)
      \<lparr>inputs_t := filter (\<lambda>r. fst r \<notin> set D) (inputs_t (cascade_blocks gone
      (tb\<lparr>outputs_t := filter (\<lambda>r. txid r \<notin> set D) (map (unmark R) (outputs_t tb)),
          blocks_t := filter (\<lambda>r. \<not> snd r > h) (blocks_t tb)\<rparr>)))\<rparr>"
  proof (cases "D = []")
    case True
    with assms(1) show ?thesis
      by (simp add: undo_stmts_def R_def gone_def e)
  next
    case False
    with assms(1) show ?thesis
      by (simp add: undo_stmts_def unmark_eq R_def gone_def)
  qed
  then show "blocks_t tb' = filter (\<lambda>r. \<not> snd r > h) (blocks_t tb)"
    and "transactions_t tb' = filter (\<lambda>r. snd r \<notin> set gone) (transactions_t tb)"
    and "inputs_t tb' =
      filter (\<lambda>r. fst r \<notin> set D) (filter (\<lambda>r. fst r \<notin> set goneTxs) (inputs_t tb))"
    and "outputs_t tb' = filter (\<lambda>r. txid r \<notin> set D) (map (unmark R) (outputs_t tb))"
    and "balances_t tb' = balances_t tb"
    by (simp_all add: cascade_blocks_def Let_def goneTxs_def)
qed

lemma good_heights: "good J \<Longrightarrow> k < length J \<Longrightarrow> height (J ! k) = int k + 1"
  by (simp add: good_def block_ok_def)

lemma good_distinct_ids: "good J \<Longrightarrow> distinct (map b_id J)"
proof (induction J rule: rev_induct)
  case Nil
  then show ?case by simp
next
  case (snoc b J)
  then have "distinct (map b_id J)" and "b_id b \<notin> b_id ` set J"
    by (simp_all add: good_snoc block_ok_def)
  then show ?case by simp
qed

lemma good_distinct_txids: "good J \<Longrightarrow> distinct (map t_id (txs_of J))"
proof (induction J rule: rev_induct)
  case Nil
  then show ?case by (simp add: txs_of_def)
next
  case (snoc b J)
  then have a: "distinct (map t_id (txs_of J))" and b: "distinct (map t_id (transactions b))"
    and c: "\<forall>t \<in> set (transactions b). t_id t \<notin> t_id ` set (txs_of J)"
    by (simp_all add: good_snoc block_ok_def)
  have "False" if "x \<in> t_id ` set (txs_of J)" and "x \<in> t_id ` set (transactions b)" for x
  proof -
    from that(2) obtain t where "t \<in> set (transactions b)" "x = t_id t" by blast
    with c that(1) show False by simp
  qed
  then have "t_id ` set (txs_of J) \<inter> t_id ` set (transactions b) = {}" by blast
  with a b show ?case
    by (simp add: txs_of_append txs_of_single)
qed

lemma height_take: "good J \<Longrightarrow> b \<in> set (take n J) \<Longrightarrow> height b \<le> int n"
proof -
  assume g: "good J" and "b \<in> set (take n J)"
  then obtain i where i: "i < length (take n J)" "take n J ! i = b"
    by (auto simp: in_set_conv_nth)
  then have "i < n" "i < length J" "b = J ! i" by simp_all
  with good_heights [OF g, of i] show ?thesis by simp
qed

lemma height_drop: "good J \<Longrightarrow> b \<in> set (drop n J) \<Longrightarrow> height b > int n"
proof -
  assume g: "good J" and "b \<in> set (drop n J)"
  then obtain i where i: "i < length (drop n J)" "drop n J ! i = b"
    by (auto simp: in_set_conv_nth)
  then have "n + i < length J" "b = J ! (n + i)" by simp_all
  with good_heights [OF g, of "n + i"] show ?thesis by simp
qed

lemma kept_blocks: "good J \<Longrightarrow> 0 \<le> h \<Longrightarrow> filter (\<lambda>b. height b \<le> h) J = take (nat h) J"
proof -
  assume g: "good J" and h: "0 \<le> h"
  have a: "\<forall>b \<in> set (take (nat h) J). height b \<le> h"
  proof
    fix b assume "b \<in> set (take (nat h) J)"
    from height_take [OF g this] h show "height b \<le> h" by simp
  qed
  have b: "\<forall>b \<in> set (drop (nat h) J). \<not> height b \<le> h"
  proof
    fix b assume "b \<in> set (drop (nat h) J)"
    from height_drop [OF g this] h show "\<not> height b \<le> h" by simp
  qed
  have "filter (\<lambda>b. height b \<le> h) (take (nat h) J @ drop (nat h) J) = take (nat h) J"
    unfolding filter_append using a b by (simp add: filter_id_conv filter_empty_conv)
  then show ?thesis by simp
qed

lemma refs_unspent:
  assumes "good J" and "in_keys t \<subseteq> fst ` set (fst (rebuild J))"
  shows "refs t \<inter> spent J = {}"
proof -
  have "x \<notin> spent J" if "x \<in> refs t" for x
  proof -
    from that have "utxoKey (fst x) (snd x) \<in> in_keys t" unfolding in_keys_refs by blast
    with assms(2) rebuild_good [OF assms(1)]
    have "utxoKey (fst x) (snd x) \<in> fst ` unspent_entries J" by auto
    then obtain t' i' where "utxoKey (fst x) (snd x) = utxoKey t' i'" "(t', i') \<notin> spent J"
      unfolding key_in_unspent_entries by blast
    then show ?thesis by (cases x) (simp add: utxoKey_inj)
  qed
  then show ?thesis by blast
qed

lemma spent_disjoint: "good J \<Longrightarrow> spent (take n J) \<inter> spent (drop n J) = {}"
proof (induction J rule: rev_induct)
  case Nil
  then show ?case by (simp add: spent_def txs_of_def)
next
  case (snoc b J)
  from snoc.prems have g: "good J" and ok: "block_ok J b" by (simp_all add: good_snoc)
  show ?case
  proof (cases "n \<le> length J")
    case True
    have "\<forall>t \<in> set (transactions b). refs t \<inter> spent J = {}"
      using refs_unspent [OF g] ok by (simp add: block_ok_def)
    then have "spent [b] \<inter> spent J = {}"
      by (auto simp: spent_refs txs_of_single)
    moreover have "spent (take n J) \<subseteq> spent J"
      using spent_append [of "take n J" "drop n J"] by auto
    ultimately have "spent (take n J) \<inter> spent [b] = {}" by blast
    with snoc.IH [OF g] True show ?thesis
      by (auto simp: spent_append)
  next
    case False
    then show ?thesis by (simp add: spent_def txs_of_def)
  qed
qed

lemma set_txs_of: "set (txs_of J) = (\<Union>b \<in> set J. set (transactions b))"
  by (simp add: txs_of_def)

lemma select_deleted:
  assumes g: "good J" and db: "db_ok J tb" and h: "0 \<le> h"
    and sel: "select_deleted_txs t tb = Some D" and si: "sql_integer t = Some h"
  shows "set D = t_id ` set (txs_of (drop (nat h) J))"
proof -
  let ?n = "nat h"
  from db have bl: "set (blocks_t tb) = (\<lambda>b. (b_id b, height b)) ` set J"
    and tr: "set (transactions_t tb) = (\<Union>b \<in> set J. (\<lambda>t. (t_id t, b_id b)) ` set (transactions b))"
    by (simp_all add: db_ok_def)
  have inj: "inj_on b_id (set J)"
    using good_distinct_ids [OF g] by (simp add: distinct_map)
  from sel si have D: "set D = {fst r | r. r \<in> set (transactions_t tb) \<and>
      (\<exists>b \<in> set (blocks_t tb). fst b = snd r \<and> snd b > h)}"
    by (auto simp: select_deleted_txs_def) force+
  show ?thesis
  proof (intro set_eqI iffI)
    fix x assume "x \<in> set D"
    then obtain r br where r: "r \<in> set (transactions_t tb)" "x = fst r"
      and br: "br \<in> set (blocks_t tb)" "fst br = snd r" "snd br > h"
      unfolding D by blast
    from r(1) obtain b t where b: "b \<in> set J" "t \<in> set (transactions b)" "r = (t_id t, b_id b)"
      unfolding tr by blast
    from br(1) obtain b' where b': "b' \<in> set J" "br = (b_id b', height b')"
      unfolding bl by blast
    from br(2) b(3) b'(2) have "b_id b' = b_id b" by simp
    with inj b(1) b'(1) have "b' = b" by (simp add: inj_on_def)
    with br(3) b'(2) have hb: "height b > h" by simp
    have "b \<in> set (take ?n J) \<or> b \<in> set (drop ?n J)"
      using b(1) set_append [of "take ?n J" "drop ?n J"] by auto
    moreover have "b \<notin> set (take ?n J)"
      using height_take [OF g, of b ?n] hb h by auto
    ultimately have "b \<in> set (drop ?n J)" by blast
    with b(2) have "t \<in> set (txs_of (drop ?n J))" unfolding set_txs_of by blast
    with r(2) b(3) show "x \<in> t_id ` set (txs_of (drop ?n J))" by simp
  next
    fix x assume "x \<in> t_id ` set (txs_of (drop ?n J))"
    then obtain b t where b: "b \<in> set (drop ?n J)" "t \<in> set (transactions b)" "x = t_id t"
      unfolding set_txs_of by blast
    from b(1) have bJ: "b \<in> set J" by (rule in_set_dropD)
    from height_drop [OF g b(1)] h have hb: "height b > h" by simp
    have "(t_id t, b_id b) \<in> set (transactions_t tb)"
      unfolding tr using bJ b(2) by blast
    moreover have "(b_id b, height b) \<in> set (blocks_t tb)"
      unfolding bl using bJ by blast
    ultimately show "x \<in> set D"
      unfolding D using hb b(3) by force
  qed
qed

lemma db_rollback:
  assumes g: "good J" and db: "db_ok J tb" and h: "0 \<le> h"
    and D: "set D = t_id ` set (txs_of (drop (nat h) J))"
    and ex: "exec_all (undo_stmts D h) tb = Some tb'"
  shows "db_ok (take (nat h) J) tb'"
proof -
  let ?J1 = "take (nat h) J" and ?J2 = "drop (nat h) J"
  from db have bl: "set (blocks_t tb) = (\<lambda>b. (b_id b, height b)) ` set J"
    and tr: "set (transactions_t tb) = (\<Union>b \<in> set J. (\<lambda>t. (t_id t, b_id b)) ` set (transactions b))"
    and inp: "set (inputs_t tb) = (\<Union>t \<in> set (txs_of J). (\<lambda>i. (t_id t, txId i, index i)) ` set (inputs t))"
    and di: "distinct (map row_key (outputs_t tb))"
    and out: "set (outputs_t tb) = row_of (spent J) ` produced J"
    by (simp_all add: db_ok_def)
  have J: "J = ?J1 @ ?J2" by simp
  have setJ: "set J = set ?J1 \<union> set ?J2"
    using set_append [of ?J1 ?J2] by simp
  have m1: "b \<in> set ?J1 \<Longrightarrow> height b \<le> h" for b
    using height_take [OF g, of b "nat h"] h by simp
  have m2: "b \<in> set ?J2 \<Longrightarrow> height b > h" for b
    using height_drop [OF g, of b "nat h"] h by simp
  have "distinct (map b_id (?J1 @ ?J2))"
    unfolding append_take_drop_id by (rule good_distinct_ids [OF g])
  then have F3: "b_id ` set ?J1 \<inter> b_id ` set ?J2 = {}"
    by (metis distinct_append map_append set_map)
  have "distinct (map t_id (txs_of ?J1 @ txs_of ?J2))"
    unfolding txs_of_append [symmetric] append_take_drop_id by (rule good_distinct_txids [OF g])
  then have F2: "t_id ` set (txs_of ?J1) \<inter> t_id ` set (txs_of ?J2) = {}"
    by (metis distinct_append map_append set_map)
  have txsJ: "set (txs_of J) = set (txs_of ?J1) \<union> set (txs_of ?J2)"
    using txs_of_append [of ?J1 ?J2] by (metis J set_append)
  have prodJ: "produced J = produced ?J1 \<union> produced ?J2"
    using produced_append [of ?J1 ?J2] by simp
  have spJ: "spent J = spent ?J1 \<union> spent ?J2"
    using spent_append [of ?J1 ?J2] by simp
  note ut = undo_tables [OF ex]
  have B: "set (blocks_t tb') = (\<lambda>b. (b_id b, height b)) ` set ?J1"
  proof (intro set_eqI iffI)
    fix r assume "r \<in> set (blocks_t tb')"
    then have "r \<in> set (blocks_t tb)" "\<not> snd r > h" by (simp_all add: ut(1))
    then obtain b where b: "b \<in> set J" "r = (b_id b, height b)" "\<not> height b > h"
      unfolding bl by auto
    with m2 [of b] setJ have "b \<in> set ?J1" by auto
    with b(2) show "r \<in> (\<lambda>b. (b_id b, height b)) ` set ?J1" by blast
  next
    fix r assume "r \<in> (\<lambda>b. (b_id b, height b)) ` set ?J1"
    then obtain b where b: "b \<in> set ?J1" "r = (b_id b, height b)" by blast
    with m1 [of b] setJ have "r \<in> set (blocks_t tb)" "\<not> snd r > h"
      unfolding bl by auto
    then show "r \<in> set (blocks_t tb')" by (simp add: ut(1))
  qed
  have gone: "set (map fst (filter (\<lambda>r. snd r > h) (blocks_t tb))) = b_id ` set ?J2"
  proof (intro set_eqI iffI)
    fix x assume "x \<in> set (map fst (filter (\<lambda>r. snd r > h) (blocks_t tb)))"
    then obtain r where "r \<in> set (blocks_t tb)" "snd r > h" "x = fst r" by auto
    then obtain b where b: "b \<in> set J" "x = b_id b" "height b > h"
      unfolding bl by auto
    with m1 [of b] setJ have "b \<in> set ?J2" by auto
    with b(2) show "x \<in> b_id ` set ?J2" by blast
  next
    fix x assume "x \<in> b_id ` set ?J2"
    then obtain b where b: "b \<in> set ?J2" "x = b_id b" by blast
    with m2 [of b] setJ have "(b_id b, height b) \<in> set (blocks_t tb)" "height b > h"
      unfolding bl by auto
    then show "x \<in> set (map fst (filter (\<lambda>r. snd r > h) (blocks_t tb)))"
      using b(2) by force
  qed
  have T: "set (transactions_t tb') =
      (\<Union>b \<in> set ?J1. (\<lambda>t. (t_id t, b_id b)) ` set (transactions b))"
  proof (intro set_eqI iffI)
    fix r assume "r \<in> set (transactions_t tb')"
    then have r: "r \<in> set (transactions_t tb)" "snd r \<notin> b_id ` set ?J2"
      using gone by (simp_all add: ut(2))
    then obtain b t where b: "b \<in> set J" "t \<in> set (transactions b)" "r = (t_id t, b_id b)"
      unfolding tr by blast
    with r(2) have "b \<notin> set ?J2" by auto
    with b(1) setJ have "b \<in> set ?J1" by auto
    with b show "r \<in> (\<Union>b \<in> set ?J1. (\<lambda>t. (t_id t, b_id b)) ` set (transactions b))" by blast
  next
    fix r assume "r \<in> (\<Union>b \<in> set ?J1. (\<lambda>t. (t_id t, b_id b)) ` set (transactions b))"
    then obtain b t where b: "b \<in> set ?J1" "t \<in> set (transactions b)" "r = (t_id t, b_id b)"
      by blast
    from b(1) F3 have "b_id b \<notin> b_id ` set ?J2" by blast
    moreover have "r \<in> set (transactions_t tb)" unfolding tr using b setJ by blast
    ultimately show "r \<in> set (transactions_t tb')"
      using gone b(3) by (simp add: ut(2))
  qed
  have I: "set (inputs_t tb') =
      (\<Union>t \<in> set (txs_of ?J1). (\<lambda>i. (t_id t, txId i, index i)) ` set (inputs t))"
  proof (intro set_eqI iffI)
    fix r assume "r \<in> set (inputs_t tb')"
    then have r: "r \<in> set (inputs_t tb)" "fst r \<notin> set D" by (simp_all add: ut(3))
    then obtain t i where t: "t \<in> set (txs_of J)" "i \<in> set (inputs t)"
      "r = (t_id t, txId i, index i)" unfolding inp by blast
    with r(2) D have "t \<notin> set (txs_of ?J2)" by auto
    with t(1) txsJ have "t \<in> set (txs_of ?J1)" by auto
    with t show "r \<in> (\<Union>t \<in> set (txs_of ?J1). (\<lambda>i. (t_id t, txId i, index i)) ` set (inputs t))"
      by blast
  next
    fix r assume "r \<in> (\<Union>t \<in> set (txs_of ?J1). (\<lambda>i. (t_id t, txId i, index i)) ` set (inputs t))"
    then obtain t i where t: "t \<in> set (txs_of ?J1)" "i \<in> set (inputs t)"
      "r = (t_id t, txId i, index i)" by blast
    from t(1) F2 have nD: "t_id t \<notin> t_id ` set (txs_of ?J2)" by blast
    have rin: "r \<in> set (inputs_t tb)" unfolding inp using t txsJ by blast
    have "t_id t \<notin> set (map fst (filter (\<lambda>r. snd r \<in> set (map fst (filter (\<lambda>r. snd r > h)
        (blocks_t tb)))) (transactions_t tb)))"
    proof
      assume "t_id t \<in> set (map fst (filter (\<lambda>r. snd r \<in> set (map fst (filter (\<lambda>r. snd r > h)
        (blocks_t tb)))) (transactions_t tb)))"
      then obtain r' where r': "r' \<in> set (transactions_t tb)" "snd r' \<in> b_id ` set ?J2"
        "fst r' = t_id t" unfolding gone by auto
      from r'(1) obtain b t' where b: "b \<in> set J" "t' \<in> set (transactions b)"
        "r' = (t_id t', b_id b)" unfolding tr by blast
      from r'(2) b(3) F3 have "b \<notin> set ?J1" by auto
      with b(1) setJ have "b \<in> set ?J2" by auto
      with b(2) have "t' \<in> set (txs_of ?J2)" unfolding set_txs_of by blast
      then have "t_id t' \<in> t_id ` set (txs_of ?J2)" by (rule imageI)
      with r'(3) b(3) nD show False by simp
    qed
    with rin nD D t(3) show "r \<in> set (inputs_t tb')"
      by (simp add: ut(3))
  qed
  have R: "snd ` set (filter (\<lambda>x. fst x \<in> set D) (inputs_t tb)) = spent ?J2"
  proof (intro set_eqI iffI)
    fix x assume "x \<in> snd ` set (filter (\<lambda>x. fst x \<in> set D) (inputs_t tb))"
    then obtain r where r: "r \<in> set (inputs_t tb)" "fst r \<in> set D" "x = snd r" by auto
    then obtain t i where t: "t \<in> set (txs_of J)" "i \<in> set (inputs t)"
      "r = (t_id t, txId i, index i)" unfolding inp by blast
    with r(2) D F2 have "t \<notin> set (txs_of ?J1)" by auto
    with t(1) txsJ have "t \<in> set (txs_of ?J2)" by auto
    with t r(3) show "x \<in> spent ?J2" unfolding spent_def by force
  next
    fix x assume "x \<in> spent ?J2"
    then obtain t i where t: "t \<in> set (txs_of ?J2)" "i \<in> set (inputs t)" "x = (txId i, index i)"
      unfolding spent_def by blast
    then have "(t_id t, txId i, index i) \<in> set (inputs_t tb)"
      unfolding inp using txsJ by blast
    moreover have "t_id t \<in> set D" using D t(1) by blast
    ultimately show "x \<in> snd ` set (filter (\<lambda>x. fst x \<in> set D) (inputs_t tb))"
      using t(3) by force
  qed
  have sp1: "spent J - spent ?J2 = spent ?J1"
    using spent_disjoint [OF g, of "nat h"] spJ by blast
  have O: "set (outputs_t tb') = row_of (spent ?J1) ` produced ?J1"
  proof (intro set_eqI iffI)
    fix r assume "r \<in> set (outputs_t tb')"
    then obtain r0 where r0: "r0 \<in> set (outputs_t tb)" "r = unmark (spent ?J2) r0"
      "txid r \<notin> set D" unfolding ut(4) R by auto
    from r0(1) obtain x where x: "x \<in> produced J" "r0 = row_of (spent J) x"
      unfolding out by blast
    with r0(2) have rx: "r = row_of (spent ?J1) x" by (simp add: unmark_row_of sp1)
    then have "txid r = fst x" by (simp add: row_of_def)
    with r0(3) D have "fst x \<notin> t_id ` set (txs_of ?J2)" by simp
    then have "x \<notin> produced ?J2"
      using produced_txid [of "fst x" "fst (snd x)" "snd (snd x)" ?J2] by auto
    with x(1) prodJ have "x \<in> produced ?J1" by auto
    with rx show "r \<in> row_of (spent ?J1) ` produced ?J1" by blast
  next
    fix r assume "r \<in> row_of (spent ?J1) ` produced ?J1"
    then obtain x where x: "x \<in> produced ?J1" "r = row_of (spent ?J1) x" by blast
    then have "fst x \<in> t_id ` set (txs_of ?J1)"
      using produced_txid [of "fst x" "fst (snd x)" "snd (snd x)" ?J1] by auto
    with F2 D have nD: "fst x \<notin> set D" by blast
    have "row_of (spent J) x \<in> set (outputs_t tb)" unfolding out using x(1) prodJ by blast
    moreover have "r = unmark (spent ?J2) (row_of (spent J) x)"
      using x(2) by (simp add: unmark_row_of sp1)
    moreover have "txid r = fst x" using x(2) by (simp add: row_of_def)
    ultimately show "r \<in> set (outputs_t tb')"
      unfolding ut(4) R using nD by auto
  qed
  have "row_key \<circ> unmark (spent ?J2) = row_key"
    by (rule ext) simp
  with di have "distinct (map row_key (map (unmark (spent ?J2)) (outputs_t tb)))" by simp
  then have Dk: "distinct (map row_key (outputs_t tb'))"
    unfolding ut(4) R by (rule distinct_map_filter)
  from B T I O Dk show ?thesis
    by (simp add: db_ok_def)
qed

lemma same_utxos_spend: "same_utxos m m' \<Longrightarrow> same_utxos (spend_input m i) (spend_input m' i)"
  by (simp add: same_utxos_def spend_input_def Let_def)

lemma same_utxos_add: "same_utxos m m' \<Longrightarrow> same_utxos (add_output tid m p) (add_output tid m' p)"
  by (simp add: same_utxos_def add_output_def)

lemma same_utxos_foldl:
  assumes "\<And>m m' x. same_utxos m m' \<Longrightarrow> same_utxos (f m x) (f m' x)"
  shows "same_utxos m m' \<Longrightarrow> same_utxos (foldl f m xs) (foldl f m' xs)"
proof (induction xs arbitrary: m m')
  case Nil
  then show ?case by simp
next
  case (Cons x xs)
  from Cons.IH [OF assms [OF Cons.prems]] show ?case by simp
qed

lemma same_utxos_tx: "same_utxos m m' \<Longrightarrow> same_utxos (apply_tx m t) (apply_tx m' t)"
  unfolding apply_tx_def
  by (intro same_utxos_foldl same_utxos_add same_utxos_spend)

lemma same_utxos_block: "same_utxos m m' \<Longrightarrow> same_utxos (apply_block m b) (apply_block m' b)"
  unfolding apply_block_def
  by (intro same_utxos_foldl same_utxos_tx)

lemma check_inputs_keys:
  "check_inputs u is s = Inr s' \<Longrightarrow>
   (\<lambda>i. utxoKey (txId i) (index i)) ` set is \<subseteq> fst ` set u"
proof (induction "is" arbitrary: s)
  case Nil
  then show ?case by simp
next
  case (Cons i "is")
  from Cons.prems obtain v where v: "map_of u (utxoKey (txId i) (index i)) = Some v"
    and r: "check_inputs u is (s + val v) = Inr s'"
    by (auto split: option.splits)
  from v have "utxoKey (txId i) (index i) \<in> fst ` set u"
    by (metis map_of_eq_None_iff option.distinct(1))
  with Cons.IH [OF r] show ?case by simp
qed

lemma check_transactions_keys:
  "check_transactions u ts = None \<Longrightarrow> \<forall>t \<in> set ts. in_keys t \<subseteq> fst ` set u"
proof (induction ts)
  case Nil
  then show ?case by simp
next
  case (Cons t ts)
  from Cons.prems obtain s where s: "check_inputs u (inputs t) 0 = Inr s"
    and r: "check_transactions u ts = None"
    by (auto split: sum.splits if_splits)
  from check_inputs_keys [OF s] Cons.IH [OF r] show ?case
    by (simp add: in_keys_def)
qed

lemma validate_None:
  assumes "validate H st b = None"
  shows "height b = currentHeight st + 1"
    and "\<forall>t \<in> set (transactions b). in_keys t \<subseteq> fst ` set (utxos st)"
    and "b_id b = H (dataToHash b)"
proof -
  from assms show "height b = currentHeight st + 1"
    by (cases "currentHeight st = 0") (auto simp: validate_def split: if_splits)
  from assms have "check_transactions (utxos st) (transactions b) = None"
    by (auto simp: validate_def split: if_splits option.splits)
  then show "\<forall>t \<in> set (transactions b). in_keys t \<subseteq> fst ` set (utxos st)"
    by (rule check_transactions_keys)
  from assms show "b_id b = H (dataToHash b)"
    by (auto simp: validate_def split: if_splits option.splits)
qed

lemma inj_row_of: "inj (row_of S)"
  by (auto simp: inj_def row_of_def prod_eq_iff)

lemma unspent_sum:
  assumes g: "good J" and db: "db_ok J tb"
  shows "sum_list (map r_value (filter (\<lambda>r. r_address r = a) (unspent tb)))
    = utxo_total (fst (rebuild J)) a"
proof -
  let ?U = "fst (rebuild J)"
  let ?Q = "{x \<in> produced J. (fst x, fst (snd x)) \<notin> spent J \<and> address (snd (snd x)) = a}"
  let ?g = "\<lambda>x. (utxoKey (fst x) (fst (snd x)), snd (snd x))"
  from db have di: "distinct (map row_key (outputs_t tb))"
    and out: "set (outputs_t tb) = row_of (spent J) ` produced J"
    by (simp_all add: db_ok_def)
  from rebuild_good [OF g] have dU: "distinct (map fst ?U)" and U: "set ?U = unspent_entries J"
    by (simp_all add: distinct_keys_def)
  have d1: "distinct (filter (\<lambda>r. r_address r = a) (unspent tb))"
    using di by (simp add: unspent_def distinct_map)
  have s1: "set (filter (\<lambda>r. r_address r = a) (unspent tb)) = row_of (spent J) ` ?Q"
    by (auto simp: unspent_def out row_of_def)
  have "sum_list (map r_value (filter (\<lambda>r. r_address r = a) (unspent tb)))
      = sum r_value (row_of (spent J) ` ?Q)"
    using sum_list_distinct_conv_sum_set [OF d1, of r_value] s1 by simp
  also have "\<dots> = sum (\<lambda>x. val (snd (snd x))) ?Q"
    by (subst sum.reindex) (auto intro: inj_on_subset [OF inj_row_of] simp: row_of_def)
  finally have L: "sum_list (map r_value (filter (\<lambda>r. r_address r = a) (unspent tb)))
      = sum (\<lambda>x. val (snd (snd x))) ?Q" .
  have d2: "distinct (filter (\<lambda>p. address (snd p) = a) ?U)"
    using dU by (simp add: distinct_map)
  have s2: "set (filter (\<lambda>p. address (snd p) = a) ?U) = ?g ` ?Q"
    by (auto simp: U unspent_entries_def)
  have ig: "inj_on ?g ?Q"
    by (auto simp: inj_on_def utxoKey_inj prod_eq_iff)
  have "utxo_total ?U a = sum (\<lambda>p. val (snd p)) (?g ` ?Q)"
    unfolding utxo_total_def
    using sum_list_distinct_conv_sum_set [OF d2, of "\<lambda>p. val (snd p)"] s2 by simp
  also have "\<dots> = sum (\<lambda>x. val (snd (snd x))) ?Q"
    by (subst sum.reindex [OF ig]) simp
  finally show ?thesis using L by simp
qed




lemma inv_fresh: "inv (fresh f)"
  by (simp add: inv_def fresh_def initial_state_def good_Nil rebuild_Nil db_ok_empty)

lemma submit_accepted:
  assumes "submit_block H s b = (BlockAccepted h, s')"
  obtains db1 db2 where "validate H (fst s) b = None"
    and "run (persist_block b) (snd s) = (True, db1)"
    and "run (persist_balances (snd (apply_block (utxos (fst s), balances (fst s)) b))) db1 = (True, db2)"
    and "s' = ((fst s)\<lparr>utxos := fst (apply_block (utxos (fst s), balances (fst s)) b),
                  balances := snd (apply_block (utxos (fst s), balances (fst s)) b),
                  blocks := blocks (fst s) @ [b], currentHeight := height b\<rparr>, db2)"
    and "h = height b"
proof -
  let ?m = "apply_block (utxos (fst s), balances (fst s)) b"
  have v: "validate H (fst s) b = None"
    using assms by (cases "validate H (fst s) b") (simp_all add: submit_block_def)
  obtain ok1 db1 where r1: "run (persist_block b) (snd s) = (ok1, db1)"
    by (cases "run (persist_block b) (snd s)")
  have ok1: "ok1" using assms v r1 by (cases ok1) (simp_all add: submit_block_def)
  obtain ok2 db2 where r2: "run (persist_balances (snd ?m)) db1 = (ok2, db2)"
    by (cases "run (persist_balances (snd ?m)) db1")
  have ok2: "ok2" using assms v r1 ok1 r2 by (cases ok2) (simp_all add: submit_block_def Let_def)
  have e: "s' = ((fst s)\<lparr>utxos := fst ?m, balances := snd ?m,
                  blocks := blocks (fst s) @ [b], currentHeight := height b\<rparr>, db2)"
    "h = height b"
    using assms v r1 ok1 r2 ok2 by (auto simp: submit_block_def Let_def)
  from r1 ok1 have r1': "run (persist_block b) (snd s) = (True, db1)" by simp
  from r2 ok2 have r2': "run (persist_balances (snd ?m)) db1 = (True, db2)" by simp
  show thesis by (rule that [OF v r1' r2' e])
qed

lemma submit_inv:
  assumes i: "inv s" and a: "submit_block H s b = (BlockAccepted h, s')"
  shows "inv s'" and "blocks (fst s') = blocks (fst s) @ [b]"
proof -
  let ?J = "blocks (fst s)"
  let ?m = "apply_block (utxos (fst s), balances (fst s)) b"
  from a obtain db1 db2 where v: "validate H (fst s) b = None"
    and r1: "run (persist_block b) (snd s) = (True, db1)"
    and r2: "run (persist_balances (snd ?m)) db1 = (True, db2)"
    and s': "s' = ((fst s)\<lparr>utxos := fst ?m, balances := snd ?m,
                  blocks := ?J @ [b], currentHeight := height b\<rparr>, db2)"
    by (rule submit_accepted)
  from i have g: "good ?J" and ch: "currentHeight (fst s) = int (length ?J)"
    and u: "utxos (fst s) = fst (rebuild ?J)"
    and db: "db_ok ?J (fst (snd s))"
    by (simp_all add: inv_def)
  note vn = validate_None [OF v]
  from vn(1) ch have h: "height b = int (length ?J) + 1" by simp
  from vn(2) u have ins: "\<forall>t \<in> set (transactions b). in_keys t \<subseteq> fst ` set (fst (rebuild ?J))"
    by simp
  note sub = db_submit [OF g db run_True [OF r1] h ins]
  from run_True [OF r2] have "db_ok (?J @ [b]) (fst db2) = db_ok (?J @ [b]) (fst db1)"
    by (intro db_ok_frame exec_balances)
  with sub(2) have db': "db_ok (?J @ [b]) (fst db2)" by simp
  have g': "good (?J @ [b])" using g sub(1) by (simp add: good_snoc)
  have "same_utxos (utxos (fst s), balances (fst s)) (rebuild ?J)"
    using u by (simp add: same_utxos_def)
  from same_utxos_block [OF this, of b] have me: "same_utxos ?m (rebuild (?J @ [b]))"
    by (simp add: rebuild_snoc)
  show "blocks (fst s') = ?J @ [b]" by (simp add: s')
  show "inv s'"
    using g' db' me h by (simp add: inv_def s' same_utxos_def)
qed

lemma exec_new_balances:
  "exec_all (map (\<lambda>r. InsertBalance (fst r) (snd r)) rows) tb = Some tb' \<Longrightarrow>
   blocks_t tb' = blocks_t tb \<and> transactions_t tb' = transactions_t tb \<and>
   inputs_t tb' = inputs_t tb \<and> outputs_t tb' = outputs_t tb \<and>
   (\<forall>r \<in> set rows. int4_param (Str (snd r)) \<noteq> None) \<and>
   balances_t tb' = balances_t tb @ map (\<lambda>r. (fst r, the (int4_param (Str (snd r))))) rows"
proof (induction rows arbitrary: tb)
  case Nil
  then show ?case by simp
next
  case (Cons r rows)
  from Cons.prems obtain n where n: "int4_param (Str (snd r)) = Some n"
    and "exec_all (map (\<lambda>r. InsertBalance (fst r) (snd r)) rows)
      (tb\<lparr>balances_t := balances_t tb @ [(fst r, n)]\<rparr>) = Some tb'"
    by (auto split: option.splits if_splits)
  from Cons.IH [OF this(2)] n show ?case
    by simp
qed

lemma rollback_accepted:
  assumes "rollback t s = (RollbackSuccessful h, s')"
  obtains q D db1 db2 rows db3 db4 where "t = Fin q" and "\<not> q < 1"
    and "\<not> q > of_int (currentHeight (fst s))"
    and "query (select_deleted_txs t) (snd s) = (Some D, db1)"
    and "run (undo_stmts D \<lfloor>q\<rfloor>) db1 = (True, db2)"
    and "query select_unspent_sums db2 = (Some rows, db3)"
    and "run (DeleteBalances # map (\<lambda>r. InsertBalance (fst r) (snd r)) rows) db3 = (True, db4)"
    and "h = \<lfloor>q\<rfloor>"
    and "s' = (\<lparr>blocks = filter (\<lambda>b. of_int (height b) \<le> q) (blocks (fst s)),
               currentHeight = \<lfloor>q\<rfloor>, balances = newBalances rows,
               utxos = fst (rebuild (filter (\<lambda>b. of_int (height b) \<le> q) (blocks (fst s))))\<rparr>, db4)"
proof -
  obtain q where t: "t = Fin q"
    using assms by (cases t) (simp_all add: rollback_def)
  have q1: "\<not> q < 1" using assms t by (auto simp: rollback_def)
  have qh: "\<not> q > of_int (currentHeight (fst s))" using assms t q1 by (auto simp: rollback_def)
  obtain oD db1 where sel: "query (select_deleted_txs t) (snd s) = (oD, db1)"
    by (cases "query (select_deleted_txs t) (snd s)")
  obtain D where D: "oD = Some D"
    using assms t q1 qh sel by (cases oD) (simp_all add: rollback_def)
  obtain ok2 db2 where r1: "run (undo_stmts D \<lfloor>q\<rfloor>) db1 = (ok2, db2)"
    by (cases "run (undo_stmts D \<lfloor>q\<rfloor>) db1")
  have ok2: "ok2" using assms t q1 qh sel D r1 by (cases ok2) (simp_all add: rollback_def)
  obtain orows db3 where agg: "query select_unspent_sums db2 = (orows, db3)"
    by (cases "query select_unspent_sums db2")
  obtain rows where rows: "orows = Some rows"
    using assms t q1 qh sel D r1 ok2 agg by (cases orows) (simp_all add: rollback_def)
  obtain ok4 db4
    where r2: "run (DeleteBalances # map (\<lambda>r. InsertBalance (fst r) (snd r)) rows) db3 = (ok4, db4)"
    by (cases "run (DeleteBalances # map (\<lambda>r. InsertBalance (fst r) (snd r)) rows) db3")
  have ok4: "ok4"
    using assms t q1 qh sel D r1 ok2 agg rows r2 by (cases ok4) (simp_all add: rollback_def)
  have e: "h = \<lfloor>q\<rfloor>"
    "s' = (\<lparr>blocks = filter (\<lambda>b. of_int (height b) \<le> q) (blocks (fst s)),
               currentHeight = \<lfloor>q\<rfloor>, balances = newBalances rows,
               utxos = fst (rebuild (filter (\<lambda>b. of_int (height b) \<le> q) (blocks (fst s))))\<rparr>, db4)"
    using assms t q1 qh sel D r1 ok2 agg rows r2 ok4
    by (auto simp del: run.simps simp: rollback_def Let_def)
  from sel D have sel': "query (select_deleted_txs t) (snd s) = (Some D, db1)" by simp
  from r1 ok2 have r1': "run (undo_stmts D \<lfloor>q\<rfloor>) db1 = (True, db2)" by simp
  from agg rows have agg': "query select_unspent_sums db2 = (Some rows, db3)" by simp
  from r2 ok4
  have r2': "run (DeleteBalances # map (\<lambda>r. InsertBalance (fst r) (snd r)) rows) db3 = (True, db4)"
    by (simp only:)
  show thesis by (rule that [OF t q1 qh sel' r1' agg' r2' e])
qed

lemma sql_integer_Some:
  assumes "sql_integer (Fin q) = Some h"
  shows "h = \<lfloor>q\<rfloor>" and "q = of_int h"
  using assms by (auto simp: sql_integer_def split: if_splits)

lemma rollback_inv:
  assumes i: "inv s" and a: "rollback t s = (RollbackSuccessful h, s')"
  shows "inv s'" and "blocks (fst s') = take (nat h) (blocks (fst s))"
    and "1 \<le> h" and "h \<le> currentHeight (fst s)" and "t = Fin (of_int h)"
proof -
  let ?J = "blocks (fst s)"
  from a obtain q D db1 db2 rows db3 db4 where t: "t = Fin q" and q1: "\<not> q < 1"
    and qh: "\<not> q > of_int (currentHeight (fst s))"
    and sel: "query (select_deleted_txs t) (snd s) = (Some D, db1)"
    and r1: "run (undo_stmts D \<lfloor>q\<rfloor>) db1 = (True, db2)"
    and agg: "query select_unspent_sums db2 = (Some rows, db3)"
    and r2: "run (DeleteBalances # map (\<lambda>r. InsertBalance (fst r) (snd r)) rows) db3 = (True, db4)"
    and hq: "h = \<lfloor>q\<rfloor>"
    and s': "s' = (\<lparr>blocks = filter (\<lambda>b. of_int (height b) \<le> q) ?J,
               currentHeight = \<lfloor>q\<rfloor>, balances = newBalances rows,
               utxos = fst (rebuild (filter (\<lambda>b. of_int (height b) \<le> q) ?J))\<rparr>, db4)"
    by (rule rollback_accepted)
  from i have g: "good ?J" and ch: "currentHeight (fst s) = int (length ?J)"
    and db: "db_ok ?J (fst (snd s))"
    by (simp_all add: inv_def)
  from query_Some [OF sel] have sel': "select_deleted_txs t (fst (snd s)) = Some D"
    and e1: "fst db1 = fst (snd s)" by simp_all
  from sel' t obtain h' where si': "sql_integer (Fin q) = Some h'"
    by (auto simp: select_deleted_txs_def split: option.splits)
  note sq = sql_integer_Some [OF si']
  from sq(1) hq have hh: "h' = h" by (simp only:)
  from sq(2) hh have qh': "q = of_int h" by (simp only:)
  from si' t hh have si: "sql_integer t = Some h" by (simp only:)
  from q1 qh' have h1: "1 \<le> h" by simp
  from qh qh' have hc: "h \<le> currentHeight (fst s)" by simp
  have kept: "filter (\<lambda>b. of_int (height b) \<le> q) ?J = take (nat h) ?J"
    using kept_blocks [OF g, of h] h1 by (simp add: qh')
  have h0: "0 \<le> h" using h1 by simp
  note D = select_deleted [OF g db h0 sel' si]
  from run_True [OF r1] have "exec_all (undo_stmts D h) (fst (snd s)) = Some (fst db2)"
    by (simp add: e1 hq)
  note db2 = db_rollback [OF g db h0 D this]
  from query_Some [OF agg] have agg': "select_unspent_sums (fst db2) = Some rows"
    and e3: "fst db3 = fst db2" by simp_all
  from run_True [OF r2]
  have "exec_all (map (\<lambda>r. InsertBalance (fst r) (snd r)) rows) ((fst db2)\<lparr>balances_t := []\<rparr>)
      = Some (fst db4)"
    by (simp add: e3)
  note e4 = exec_new_balances [OF this]
  from e4 have "db_ok (take (nat h) ?J) (fst db4) = db_ok (take (nat h) ?J) (fst db2)"
    by (intro db_ok_frame) simp
  with db2 have db4: "db_ok (take (nat h) ?J) (fst db4)" by simp
  have g1: "good (take (nat h) ?J)" by (rule good_take [OF g])
  have len: "int (length (take (nat h) ?J)) = h"
    using h1 hc ch by simp
  show "inv s'"
    using g1 db4 len by (simp add: inv_def s' kept hq [symmetric])
  show "blocks (fst s') = take (nat h) ?J" by (simp add: s' kept)
  show "1 \<le> h" by (rule h1)
  show "h \<le> currentHeight (fst s)" by (rule hc)
  show "t = Fin (of_int h)" using t qh' by simp
qed

lemma reset_inv:
  assumes "reset s = (ResetSuccessful, s')"
  shows "inv s'" and "fst s' = reset_state (fst s)"
proof -
  from assms obtain db1
    where r: "run [DeleteOutputs, DeleteInputs, DeleteTransactions, DeleteBlocks, DeleteBalances] (snd s)
      = (True, db1)" and s': "s' = (reset_state (fst s), db1)"
    by (auto simp: reset_def split: prod.splits bool.splits)
  have "exec_all [DeleteOutputs, DeleteInputs, DeleteTransactions, DeleteBlocks, DeleteBalances]
      (fst (snd s)) = Some empty_tables"
    by (simp add: cascade_blocks_def empty_tables_def)
  with run_True [OF r] have "fst db1 = empty_tables" by simp
  then have "db_ok [] (fst db1)" by (simp add: db_ok_empty)
  then show "inv s'"
    by (simp add: inv_def s' reset_state_def good_Nil rebuild_Nil)
  show "fst s' = reset_state (fst s)" by (simp add: s')
qed

lemma accept_inv: "inv s \<Longrightarrow> accept H s x = Some s' \<Longrightarrow> inv s'"
proof (cases x)
  case (Submit b)
  assume "inv s" "accept H s x = Some s'"
  with Submit show ?thesis
    by (auto split: prod.splits response.splits intro: submit_inv(1))
next
  case (Rollback t)
  assume "inv s" "accept H s x = Some s'"
  with Rollback show ?thesis
    by (auto split: prod.splits rollback_response.splits intro: rollback_inv(1))
next
  case Reset
  assume "inv s" "accept H s x = Some s'"
  with Reset show ?thesis
    by (auto split: prod.splits reset_response.splits intro: reset_inv(1))
qed

lemma play_inv: "inv s \<Longrightarrow> play H ops s = Some s' \<Longrightarrow> inv s'"
proof (induction ops arbitrary: s)
  case Nil
  then show ?case by simp
next
  case (Cons x ops)
  from Cons.prems obtain s1 where "accept H s x = Some s1" "play H ops s1 = Some s'"
    by (auto split: option.splits)
  with Cons.IH [of s1] accept_inv [OF Cons.prems(1)] show ?case by blast
qed

lemma play_append:
  "play H (xs @ ys) s = (case play H xs s of None \<Rightarrow> None | Some s1 \<Rightarrow> play H ys s1)"
  by (induction xs arbitrary: s) (auto split: option.splits)

lemma play_submits_blocks:
  "inv s0 \<Longrightarrow> play H (map Submit Bs) s0 = Some s \<Longrightarrow> blocks (fst s) = blocks (fst s0) @ Bs"
proof (induction Bs arbitrary: s0)
  case Nil
  then show ?case by simp
next
  case (Cons b Bs)
  from Cons.prems(2) obtain h s1 where a: "submit_block H s0 b = (BlockAccepted h, s1)"
    and r: "play H (map Submit Bs) s1 = Some s"
    by (auto split: option.splits prod.splits response.splits)
  from submit_inv [OF Cons.prems(1) a] Cons.IH [OF _ r] show ?case by simp
qed

lemma three_blocks:
  "play example_digest (map Submit [block1, block2, block3]) (fresh None) = Some (index3, tables3, None)"
  by code_simp


lemma three_blocks_and_rollback:
  "play example_digest [Submit block1, Submit block2, Submit block3, Rollback (Fin 2)] (fresh None)
    = Some (index2r, tables2r, None)"
  by code_simp

lemma first_failure_Cons:
  "first_failure (c # cs) = (case c of None \<Rightarrow> first_failure cs | Some e \<Rightarrow> Some e)"
  by (simp add: first_failure_def split: option.splits)

lemma first_failure_Nil: "first_failure [] = None"
  by (simp add: first_failure_def)

lemma first_failure_append:
  "first_failure (xs @ ys) = (case first_failure xs of None \<Rightarrow> first_failure ys | Some e \<Rightarrow> Some e)"
  by (induction xs) (simp_all add: first_failure_Cons first_failure_Nil split: option.splits)

lemma check_inputs_first_failure:
  "check_inputs u is s =
    (case first_failure (map (input_check u) is) of
       Some e \<Rightarrow> Inl e
     | None \<Rightarrow> Inr (s + sum_list (map (\<lambda>i. case map_of u (utxoKey (txId i) (index i)) of
         None \<Rightarrow> 0 | Some utxo \<Rightarrow> val utxo) is)))"
proof (induction "is" arbitrary: s)
  case Nil
  then show ?case by (simp add: first_failure_Nil)
next
  case (Cons i "is")
  show ?case
  proof (cases "map_of u (utxoKey (txId i) (index i))")
    case None
    then have "utxoKey (txId i) (index i) \<notin> fst ` set u"
      by (simp add: map_of_eq_None_iff)
    with None show ?thesis
      by (simp add: first_failure_Cons input_check_def)
  next
    case (Some v)
    then have "utxoKey (txId i) (index i) \<in> fst ` set u"
      by (metis map_of_eq_None_iff option.distinct(1))
    with Some show ?thesis
      by (simp add: first_failure_Cons input_check_def Cons.IH split: option.splits)
  qed
qed

lemma sumOutputs_sum_list: "sumOutputs t = sum_list (map val (outputs t))"
proof -
  have "foldl (\<lambda>s out. s + val out) a xs = a + sum_list (map val xs)" for a and xs :: "Output list"
    by (induction xs arbitrary: a) simp_all
  then show ?thesis by (simp add: sumOutputs_def)
qed

lemma dataToHash_concat: "dataToHash b = toString (height b) @ concat (map t_id (transactions b))"
proof -
  have "foldl (\<lambda>d t. d @ t_id t) a ts = a @ concat (map t_id ts)" for a and ts :: "Transaction list"
    by (induction ts arbitrary: a) simp_all
  then show ?thesis by (simp add: dataToHash_def)
qed

lemma check_transactions_first_failure:
  "check_transactions u ts =
    first_failure (concat (map (\<lambda>t. map (input_check u) (inputs t) @ [conservation_check u t]) ts))"
proof (induction ts)
  case Nil
  then show ?case by (simp add: first_failure_Nil)
next
  case (Cons t ts)
  show ?case
    by (simp add: check_inputs_first_failure first_failure_append first_failure_Cons
        first_failure_Nil conservation_check_def inSum_def sumOutputs_sum_list Cons.IH
        split: option.splits)
qed

lemma validate_staged:
  "validate H st b =
    (case height_check st b of
       Some e \<Rightarrow> Some e
     | None \<Rightarrow>
        (case check_transactions (utxos st) (transactions b) of
           Some e \<Rightarrow> Some e
         | None \<Rightarrow> identity_check H b))"
proof (cases "check_transactions (utxos st) (transactions b)")
  case None
  then show ?thesis
    by (simp add: validate_def height_check_def identity_check_def dataToHash_concat Let_def)
next
  case (Some e)
  then show ?thesis
    by (simp add: validate_def height_check_def)
qed

lemma rollback_below_one: "q < 1 \<Longrightarrow> rollback (Fin q) s = (InvalidHeightParam, s)"
  by (simp add: rollback_def)

lemma rollback_above_head:
  "\<not> q < 1 \<Longrightarrow> of_int (currentHeight (fst s)) < q \<Longrightarrow> rollback (Fin q) s = (TargetAboveHead, s)"
  by (simp add: rollback_def)

lemma rollback_store_branch:
  assumes "\<not> q < 1" and "\<not> of_int (currentHeight (fst s)) < q"
  shows "(fst (rollback (Fin q) s) = RollbackFailed \<and> fst (snd (rollback (Fin q) s)) = fst s) \<or>
    fst (rollback (Fin q) s) = RollbackSuccessful \<lfloor>q\<rfloor>"
proof -
  obtain oD db1 where sel: "query (select_deleted_txs (Fin q)) (snd s) = (oD, db1)"
    by (cases "query (select_deleted_txs (Fin q)) (snd s)")
  show ?thesis
  proof (cases oD)
    case None
    with assms sel show ?thesis by (simp add: rollback_def)
  next
    case (Some D)
    obtain ok2 db2 where r1: "run (undo_stmts D \<lfloor>q\<rfloor>) db1 = (ok2, db2)"
      by (cases "run (undo_stmts D \<lfloor>q\<rfloor>) db1")
    show ?thesis
    proof (cases ok2)
      case False
      with assms sel Some r1 show ?thesis by (simp add: rollback_def)
    next
      case True
      obtain orows db3 where agg: "query select_unspent_sums db2 = (orows, db3)"
        by (cases "query select_unspent_sums db2")
      show ?thesis
      proof (cases orows)
        case None
        with assms sel Some r1 True agg show ?thesis by (simp add: rollback_def)
      next
        case rows: (Some rows)
        obtain ok4 db4
          where r2: "run (DeleteBalances # map (\<lambda>r. InsertBalance (fst r) (snd r)) rows) db3 = (ok4, db4)"
          by (cases "run (DeleteBalances # map (\<lambda>r. InsertBalance (fst r) (snd r)) rows) db3")
        show ?thesis
          using assms sel Some r1 True agg rows r2
          by (cases ok4) (simp_all add: rollback_def Let_def del: run.simps)
      qed
    qed
  qed
qed

lemma step_False: "step q s = (False, s') \<Longrightarrow> fst s' = fst s"
  by (auto simp: step_def split: if_splits option.splits)

lemma step_True: "step q s = (True, s') \<Longrightarrow> exec q (fst s) = Some (fst s')"
  by (auto simp: step_def split: if_splits option.splits)

lemma run_raises:
  "run qs s = (False, s') \<Longrightarrow>
   \<exists>pre x post mid. qs = pre @ x # post \<and> run pre s = (True, mid) \<and> step x mid = (False, s') \<and>
     exec_all pre (fst s) = Some (fst s')"
proof (induction qs arbitrary: s)
  case Nil
  then show ?case by simp
next
  case (Cons y qs)
  obtain ok s1 where st: "step y s = (ok, s1)" by (cases "step y s")
  show ?case
  proof (cases ok)
    case False
    with Cons.prems st have e: "s' = s1" by simp
    from step_False [of y s s1] st False e have "fst s' = fst s" by simp
    with st False e
    have "y # qs = [] @ y # qs \<and> run [] s = (True, s) \<and> step y s = (False, s') \<and>
      exec_all [] (fst s) = Some (fst s')"
      by simp
    then show ?thesis by blast
  next
    case True
    with Cons.prems st have "run qs s1 = (False, s')" by simp
    from Cons.IH [OF this] obtain pre x post mid
      where a: "qs = pre @ x # post" "run pre s1 = (True, mid)" "step x mid = (False, s')"
        "exec_all pre (fst s1) = Some (fst s')" by blast
    from step_True [of y s s1] st True have "exec y (fst s) = Some (fst s1)" by simp
    with a st True
    have "y # qs = (y # pre) @ x # post \<and> run (y # pre) s = (True, mid) \<and>
      step x mid = (False, s') \<and> exec_all (y # pre) (fst s) = Some (fst s')"
      by simp
    then show ?thesis by blast
  qed
qed

lemma query_tables: "fst (snd (query g s)) = fst s"
  by (simp add: query_def)

lemma apply_block_empty: "transactions b = [] \<Longrightarrow> apply_block m b = m"
  by (simp add: apply_block_def)

lemma dataToHash_empty: "transactions b = [] \<Longrightarrow> dataToHash b = toString (height b)"
  by (simp add: dataToHash_def)

lemma unspent_addresses:
  assumes g: "good J" and db: "db_ok J tb"
  shows "r_address ` set (unspent tb) = (\<lambda>p. address (snd p)) ` set (fst (rebuild J))"
proof -
  from db have out: "set (outputs_t tb) = row_of (spent J) ` produced J"
    by (simp add: db_ok_def)
  from rebuild_good [OF g] have U: "set (fst (rebuild J)) = unspent_entries J" by simp
  let ?Q = "{x \<in> produced J. (fst x, fst (snd x)) \<notin> spent J}"
  have "set (unspent tb) = row_of (spent J) ` ?Q"
    by (auto simp: unspent_def out row_of_def)
  then have "r_address ` set (unspent tb) = (\<lambda>x. address (snd (snd x))) ` ?Q"
    by (simp add: image_image row_of_def)
  also have "\<dots> = (\<lambda>p. address (snd p)) ` set (fst (rebuild J))"
    by (simp add: U unspent_entries_def image_image)
  finally show ?thesis .
qed


lemma first_failure_all_None: "(\<forall>c \<in> set cs. c = None) \<Longrightarrow> first_failure cs = None"
  by (induction cs) (simp_all add: first_failure_Nil first_failure_Cons)

lemma first_missing_input:
  assumes tx: "transactions b = pre @ t2 # post" and ins: "inputs t2 = ipre @ i # ipost"
    and h: "height_check st b = None" and pre: "check_transactions (utxos st) pre = None"
    and ipre: "\<forall>j \<in> set ipre. utxoKey (txId j) (index j) \<in> fst ` set (utxos st)"
    and miss: "utxoKey (txId i) (index i) \<notin> fst ` set (utxos st)"
  shows "validate H st b = Some (InputNotFound (utxoKey (txId i) (index i)))"
proof -
  let ?u = "utxos st"
  let ?F = "\<lambda>t. map (input_check ?u) (inputs t) @ [conservation_check ?u t]"
  have a: "first_failure (concat (map ?F pre)) = None"
    using pre by (simp add: check_transactions_first_failure)
  have b: "first_failure (map (input_check ?u) ipre) = None"
    using ipre by (intro first_failure_all_None) (simp add: input_check_def)
  have c: "input_check ?u i = Some (InputNotFound (utxoKey (txId i) (index i)))"
    using miss by (simp add: input_check_def)
  have "check_transactions ?u (transactions b) = Some (InputNotFound (utxoKey (txId i) (index i)))"
    unfolding check_transactions_first_failure tx
    by (simp add: first_failure_append first_failure_Cons a b c ins)
  with h show ?thesis by (simp add: validate_staged)
qed

lemma utxo_set_sound:
  assumes "play H ops (fresh f) = Some s"
  shows "set (utxos (fst s)) = unspent_entries (blocks (fst s))"
    and "distinct (map fst (utxos (fst s)))"
proof -
  have i: "inv s" by (rule play_inv [OF inv_fresh assms])
  then have g: "good (blocks (fst s))" by (simp add: inv_def)
  from rebuild_good [OF g] i show "set (utxos (fst s)) = unspent_entries (blocks (fst s))"
    and "distinct (map fst (utxos (fst s)))"
    by (simp_all add: inv_def distinct_keys_def)
qed

lemma plain_toString: "toString n \<noteq> [] \<and> (\<forall>c \<in> set (toString n). is_digit c \<or> c = CHR ''-'')"
proof (cases "n < 0")
  case True
  with digits_all_digit [of "nat (- n)"] show ?thesis
    by (simp add: toString_def list_all_iff)
next
  case False
  with digits_all_digit [of "nat n"] show ?thesis
    by (simp add: toString_def digits_not_Nil list_all_iff)
qed

lemma plain_text_append:
  assumes "plain_text s"
  shows "plain_text (s @ toString n)"
proof -
  from assms consider (digits) "s \<noteq> []" "\<forall>c \<in> set s. is_digit c \<or> c = CHR ''-''"
    | (native) f r where "s = native_function f @ r"
    unfolding plain_text_def by blast
  then show ?thesis
  proof cases
    case digits
    with plain_toString [of n]
    have "s @ toString n \<noteq> [] \<and> (\<forall>c \<in> set (s @ toString n). is_digit c \<or> c = CHR ''-'')"
      by auto
    then show ?thesis unfolding plain_text_def by (rule disjI1)
  next
    case native
    then have "s @ toString n = native_function f @ (r @ toString n)" by simp
    then have "\<exists>f r. s @ toString n = native_function f @ r" by blast
    then show ?thesis unfolding plain_text_def by (rule disjI2)
  qed
qed

lemma set_update_subset: "set (AList.update k v al) \<subseteq> insert (k, v) (set al)"
  by (induction al) auto

lemma plain_values_update:
  assumes "plain_values bs" and "plain_value v"
  shows "plain_values (set_prop bs a v)"
proof (cases "a = ''__proto__''")
  case True
  with assms(1) show ?thesis by (simp add: set_prop_def)
next
  case False
  have "plain_value (snd p)" if "p \<in> set (AList.update a v bs)" for p
  proof -
    from that set_update_subset [of a v bs] have "p = (a, v) \<or> p \<in> set bs" by blast
    with assms show ?thesis unfolding plain_values_def by auto
  qed
  with False show ?thesis by (simp add: set_prop_def plain_values_def)
qed

lemma plain_get:
  assumes "plain_values bs" and "map_of bs a = Some v"
  shows "plain_value v"
proof -
  from assms(2) have "(a, v) \<in> set bs" by (rule map_of_SomeD)
  with assms(1) have "plain_value (snd (a, v))" unfolding plain_values_def by (rule bspec)
  then show ?thesis by simp
qed

lemma plain_minus: "plain_value (js_minus x n)"
  by (simp add: js_minus_def plain_value_def split: option.splits)

lemma plain_plus:
  assumes "plain_values bs" and "a \<noteq> ''__proto__''"
  shows "plain_value (js_plus (or_zero (get_prop bs a)) n)"
proof (cases "map_of bs a")
  case None
  show ?thesis
  proof (cases "inherited a")
    case None
    with \<open>map_of bs a = None\<close> show ?thesis
      by (simp add: get_prop_def or_zero_def truthy_def js_plus_def plain_value_def)
  next
    case (Some t)
    with assms(2) obtain f where "t = native_function f"
      unfolding inherited_def by (metis option.inject option.distinct(1))
    then have "plain_text (t @ toString n)"
      unfolding plain_text_def by blast
    with Some \<open>map_of bs a = None\<close> show ?thesis
      by (simp add: get_prop_def or_zero_def truthy_def js_plus_def plain_value_def)
  qed
next
  case (Some v)
  have g: "get_prop bs a = v" using Some by (simp add: get_prop_def)
  from plain_get [OF assms(1) Some] have pv: "plain_value v" .
  show ?thesis
  proof (cases v)
    case (Num m)
    then show ?thesis by (simp add: g or_zero_def truthy_def js_plus_def plain_value_def)
  next
    case NotANumber
    then show ?thesis by (simp add: g or_zero_def truthy_def js_plus_def plain_value_def)
  next
    case (Str t)
    with pv have "plain_text t" by (simp add: plain_value_def)
    then have "plain_text (t @ toString n)" by (rule plain_text_append)
    with Str show ?thesis by (simp add: g or_zero_def truthy_def js_plus_def plain_value_def)
  next
    case (Obj t)
    with pv show ?thesis by (simp add: plain_value_def)
  next
    case Undefined
    with pv show ?thesis by (simp add: plain_value_def)
  qed
qed

lemma plain_spend: "plain_values (snd m) \<Longrightarrow> plain_values (snd (spend_input m i))"
  by (cases "map_of (fst m) (utxoKey (txId i) (index i))")
    (simp_all add: spend_input_def Let_def plain_values_update plain_minus)

lemma plain_add: "plain_values (snd m) \<Longrightarrow> plain_values (snd (add_output tid m p))"
proof (cases "address (snd p) = ''__proto__''")
  case True
  then show "plain_values (snd m) \<Longrightarrow> plain_values (snd (add_output tid m p))"
    by (simp add: add_output_def set_prop_def)
next
  case False
  assume "plain_values (snd m)"
  with False show "plain_values (snd (add_output tid m p))"
    by (simp add: add_output_def plain_values_update plain_plus)
qed

lemma plain_foldl:
  assumes "\<And>m x. plain_values (snd m) \<Longrightarrow> plain_values (snd (f m x))"
  shows "plain_values (snd m) \<Longrightarrow> plain_values (snd (foldl f m xs))"
proof (induction xs arbitrary: m)
  case Nil
  then show ?case by simp
next
  case (Cons x xs)
  from Cons.IH [OF assms [OF Cons.prems]] show ?case by simp
qed

lemma plain_apply_block: "plain_values (snd m) \<Longrightarrow> plain_values (snd (apply_block m b))"
  unfolding apply_block_def apply_tx_def
  by (intro plain_foldl plain_add plain_spend)

lemma plain_newBalances:
  "\<forall>r \<in> set rows. plain_text (snd r) \<Longrightarrow> plain_values (newBalances rows)"
proof -
  have "plain_values acc \<Longrightarrow> \<forall>r \<in> set rows. plain_text (snd r) \<Longrightarrow>
      plain_values (foldl (\<lambda>m r. set_prop m (fst r) (Str (snd r))) acc rows)" for acc
    by (induction rows arbitrary: acc) (simp_all add: plain_values_update plain_value_def)
  from this [of "[]"] show "\<forall>r \<in> set rows. plain_text (snd r) \<Longrightarrow> plain_values (newBalances rows)"
    by (simp add: newBalances_def plain_values_def)
qed

lemma plain_submit:
  assumes "plain_values (balances (fst s))"
  shows "plain_values (balances (fst (snd (submit_block H s b))))"
proof (cases "validate H (fst s) b")
  case (Some e)
  with assms show ?thesis by (simp add: submit_block_def)
next
  case None
  let ?m = "apply_block (utxos (fst s), balances (fst s)) b"
  have m: "plain_values (snd ?m)" using assms by (intro plain_apply_block) simp
  obtain ok1 db1 where r1: "run (persist_block b) (snd s) = (ok1, db1)"
    by (cases "run (persist_block b) (snd s)")
  obtain ok2 db2 where r2: "run (persist_balances (snd ?m)) db1 = (ok2, db2)"
    by (cases "run (persist_balances (snd ?m)) db1")
  show ?thesis
  proof (cases ok1)
    case False
    with None r1 assms show ?thesis by (simp add: submit_block_def)
  next
    case True
    with None r1 r2 m show ?thesis
      by (cases ok2) (simp_all add: submit_block_def Let_def)
  qed
qed

lemma rollback_index:
  "(\<exists>h. fst (rollback t s) = RollbackSuccessful h) \<or> fst (snd (rollback t s)) = fst s"
proof (cases t)
  case (Fin q)
  show ?thesis
  proof (cases "q < 1")
    case True
    with Fin show ?thesis by (simp add: rollback_below_one)
  next
    case False
    show ?thesis
    proof (cases "of_int (currentHeight (fst s)) < q")
      case True
      with Fin False show ?thesis by (simp add: rollback_above_head)
    next
      case nh: False
      from rollback_store_branch [OF False nh] Fin show ?thesis by auto
    qed
  qed
qed (simp_all add: rollback_def)

lemma plain_rollback:
  assumes "plain_values (balances (fst s))"
  shows "plain_values (balances (fst (snd (rollback t s))))"
proof (cases "\<exists>h. fst (rollback t s) = RollbackSuccessful h")
  case False
  with rollback_index [of t s] assms show ?thesis by simp
next
  case True
  then obtain h where "fst (rollback t s) = RollbackSuccessful h" by blast
  then have "rollback t s = (RollbackSuccessful h, snd (rollback t s))"
    by (cases "rollback t s") simp
  then obtain db2 rows db3 where agg: "query select_unspent_sums db2 = (Some rows, db3)"
    and b: "balances (fst (snd (rollback t s))) = newBalances rows"
    by (rule rollback_accepted) simp
  from query_Some [OF agg] have "select_unspent_sums (fst db2) = Some rows" by simp
  then have "\<forall>r \<in> set rows. \<exists>n. snd r = toString n"
    by (auto simp: select_unspent_sums_def)
  then have "\<forall>r \<in> set rows. plain_text (snd r)"
    using plain_toString unfolding plain_text_def by metis
  then show ?thesis unfolding b by (rule plain_newBalances)
qed

lemma plain_reset:
  assumes "plain_values (balances (fst s))"
  shows "plain_values (balances (fst (snd (reset s))))"
proof -
  obtain ok db1
    where "run [DeleteOutputs, DeleteInputs, DeleteTransactions, DeleteBlocks, DeleteBalances] (snd s)
      = (ok, db1)"
    by (cases "run [DeleteOutputs, DeleteInputs, DeleteTransactions, DeleteBlocks, DeleteBalances] (snd s)")
  with assms show ?thesis
    by (cases ok) (simp_all add: reset_def reset_state_def plain_values_def del: run.simps)
qed

lemma plain_respond:
  "plain_values (balances (fst s)) \<Longrightarrow> plain_values (balances (fst (respond H s x)))"
  by (cases x) (simp_all add: respond_def plain_submit plain_rollback plain_reset)

lemma plain_reachable: "plain_values (balances (fst (foldl (respond H) (fresh f) xs)))"
proof -
  have "plain_values (balances (fst s)) \<Longrightarrow> plain_values (balances (fst (foldl (respond H) s xs)))"
    for s
    by (induction xs arbitrary: s) (simp_all add: plain_respond)
  moreover have "plain_values (balances (fst (fresh f)))"
    by (simp add: fresh_def initial_state_def plain_values_def)
  ultimately show ?thesis .
qed

lemma rollback_replays_index:
  assumes run: "play H (map Submit Bs) (fresh f) = Some s"
    and k: "1 \<le> k" "k \<le> length Bs"
    and rb: "rollback (Fin (of_nat k)) s = (RollbackSuccessful h, s')"
  shows "\<exists>s''. play H (map Submit (take k Bs)) (fresh f) = Some s'' \<and>
    utxos (fst s') = utxos (fst s'') \<and> blocks (fst s') = blocks (fst s'') \<and>
    currentHeight (fst s') = currentHeight (fst s'')"
proof -
  have "play H (map Submit (take k Bs) @ map Submit (drop k Bs)) (fresh f) = Some s"
    using run by (simp flip: map_append)
  then obtain s'' where p: "play H (map Submit (take k Bs)) (fresh f) = Some s''"
    unfolding play_append by (auto split: option.splits)
  have i: "inv s" by (rule play_inv [OF inv_fresh run])
  have i'': "inv s''" by (rule play_inv [OF inv_fresh p])
  have J: "blocks (fst s) = Bs"
    using play_submits_blocks [OF inv_fresh run] by (simp add: fresh_def initial_state_def)
  have J'': "blocks (fst s'') = take k Bs"
    using play_submits_blocks [OF inv_fresh p] by (simp add: fresh_def initial_state_def)
  note r = rollback_inv [OF i rb]
  from r(5) have "(of_nat k :: rat) = of_int h" by simp
  then have "int k = h" by (metis of_int_eq_iff of_int_of_nat_eq)
  then have "nat h = k" by auto
  with r(2) J J'' have "blocks (fst s') = blocks (fst s'')" by simp
  with r(1) i'' p show ?thesis by (auto simp: inv_def)
qed

lemma rollback_store_matches_index:
  assumes p: "play H ops (fresh f) = Some s" and rb: "rollback t s = (RollbackSuccessful h, s')"
  shows "r_address ` set (unspent (fst (snd s'))) = (\<lambda>p. address (snd p)) ` set (utxos (fst s'))"
    and "sum_list (map r_value (filter (\<lambda>r. r_address r = a) (unspent (fst (snd s')))))
      = utxo_total (utxos (fst s')) a"
proof -
  have i: "inv s" by (rule play_inv [OF inv_fresh p])
  from rollback_inv(1) [OF i rb]
  have g: "good (blocks (fst s'))" and db: "db_ok (blocks (fst s')) (fst (snd s'))"
    and u: "utxos (fst s') = fst (rebuild (blocks (fst s')))"
    by (simp_all add: inv_def)
  show "r_address ` set (unspent (fst (snd s'))) = (\<lambda>p. address (snd p)) ` set (utxos (fst s'))"
    using unspent_addresses [OF g db] u by simp
  show "sum_list (map r_value (filter (\<lambda>r. r_address r = a) (unspent (fst (snd s')))))
      = utxo_total (utxos (fst s')) a"
    using unspent_sum [OF g db, of a] u by simp
qed

section \<open>The claims\<close>

text \<open>
  Claim C1 (rollback is replay). Three blocks are accepted and the index is rolled back to
  height 2; beside it, the first two blocks are accepted by a fresh instance. The UTXO map,
  the journal and the height agree. The balance object does not: the rollback leaves the
  strings \<open>'4'\<close> and \<open>'6'\<close> that the store's driver returned for the sums, where the
  replay holds the numbers 4 and 6 (and the entry 0 of \<open>addr1\<close>). The next block, accepted
  by both, pays 6 to \<open>addr2\<close>: the rolled-back index appends the digit and holds \<open>'46'\<close>,
  the store is given 46 as the balance and answers a balance query with it; the replayed
  index holds 10, and so does its store.
\<close>

theorem rollback_differs_from_replay:
  "play example_digest [Submit block1, Submit block2, Submit block3, Rollback (Fin 2)] (fresh None)
     = Some (index2r, tables2r, None) \<and>
   play example_digest [Submit block1, Submit block2] (fresh None) = Some (index2, tables2, None) \<and>
   utxos index2r = utxos index2 \<and> blocks index2r = blocks index2 \<and>
   currentHeight index2r = currentHeight index2 \<and>
   balances index2r = [(''addr2'', Str ''4''), (''addr3'', Str ''6'')] \<and>
   balances index2 = [(''addr1'', Num 0), (''addr2'', Num 4), (''addr3'', Num 6)] \<and>
   (case (submit_block example_digest (index2r, tables2r, None) block3b,
          submit_block example_digest (index2, tables2, None) block3b) of
      ((BlockAccepted h, rolled_back, db), (BlockAccepted h', replayed, db')) \<Rightarrow>
        h = 3 \<and> h' = 3 \<and> utxos rolled_back = utxos replayed \<and>
        balances rolled_back = [(''addr2'', Str ''46''), (''addr3'', Num 0)] \<and>
        balances replayed = [(''addr1'', Num 0), (''addr2'', Num 10), (''addr3'', Num 0)] \<and>
        get_balance ''addr2'' db = Some 46 \<and> get_balance ''addr2'' db' = Some 10
    | _ \<Rightarrow> False)"
  by code_simp

text \<open>
  Claim C2 (order of the validation checks), as amended. The validator reports the first
  failing check in this order: the height rule; then, transaction by transaction, the
  existence of each input of the transaction followed by the conservation of that
  transaction; then the block identity. Later checks do not change the answer.
\<close>

theorem validation_order:
  "validate H st b = first_failure (checks_in_code_order H st b)"
proof -
  have "first_failure (checks_in_code_order H st b) =
    (case height_check st b of
       Some e \<Rightarrow> Some e
     | None \<Rightarrow>
        (case check_transactions (utxos st) (transactions b) of
           Some e \<Rightarrow> Some e
         | None \<Rightarrow> identity_check H b))"
    unfolding checks_in_code_order_def first_failure_append check_transactions_first_failure
    by (simp add: first_failure_Cons first_failure_Nil split: option.splits)
  then show ?thesis by (simp only: validate_staged)
qed

theorem validation_order_witness:
  "first_failure (checks_in_code_order example_digest index1 block2) = None \<and>
   validate example_digest index1 block2 = None"
proof -
  have "first_failure (checks_in_code_order example_digest index1 block2) = None"
    by code_simp
  with validation_order [of example_digest index1 block2] show ?thesis by simp
qed

text \<open>
  The claim as stated puts the existence of every input of the block before any
  comparison of sums. A block whose first transaction spends 10 into 50 and whose second
  transaction names a missing output is answered with \<open>ValueMismatch\<close>; the claimed order gives
  \<open>InputNotFound\<close>.
\<close>

theorem validation_order_counterexample:
  "conservation_check (utxos index1) (hd (transactions mismatch_then_ghost)) = Some ValueMismatch \<and>
   map (input_check (utxos index1)) (inputs (hd (tl (transactions mismatch_then_ghost))))
     = [Some (InputNotFound ''ghost:0'')] \<and>
   first_failure (checks_as_claimed example_digest index1 mismatch_then_ghost)
     = Some (InputNotFound ''ghost:0'') \<and>
   validate example_digest index1 mismatch_then_ghost = Some ValueMismatch"
  by code_simp

text \<open>
  Claim C3 (atomic block application), as amended. No statement of the handler runs
  inside a store transaction; for a block that passes validation:
  when a write of the block row, of a transaction, of an input or of an output raises, the
  request is answered with a store error, the index is what it was, and the store is left
  as the statements before the raising one made it;
  when all of these succeed and an upsert of a balance raises, the request is answered with
  a store error, the index holds the UTXO map and the balance object of the applied block
  with the old journal and height, and the store is left with all rows of the block and
  the upserts before the raising one;
  and a store error has no other cause.
\<close>

theorem submit_store_failure:
  assumes v: "validate H (fst s) b = None"
  shows "(\<forall>db1. run (persist_block b) (snd s) = (False, db1) \<longrightarrow>
      submit_block H s b = (DatabaseError, fst s, db1) \<and>
      (\<exists>pre x post mid.
         persist_block b = pre @ x # post \<and> run pre (snd s) = (True, mid) \<and>
         step x mid = (False, db1) \<and> exec_all pre (fst (snd s)) = Some (fst db1))) \<and>
    (\<forall>db0 db1.
      run (persist_block b) (snd s) = (True, db0) \<and>
      run (persist_balances (snd (apply_block (utxos (fst s), balances (fst s)) b))) db0 = (False, db1) \<longrightarrow>
      submit_block H s b =
        (DatabaseError,
         (fst s)\<lparr>utxos := fst (apply_block (utxos (fst s), balances (fst s)) b),
                 balances := snd (apply_block (utxos (fst s), balances (fst s)) b)\<rparr>,
         db1) \<and>
      (\<exists>pre x post mid.
         persist_balances (snd (apply_block (utxos (fst s), balances (fst s)) b)) = pre @ x # post \<and>
         run pre db0 = (True, mid) \<and> step x mid = (False, db1) \<and>
         exec_all (persist_block b @ pre) (fst (snd s)) = Some (fst db1))) \<and>
    (fst (submit_block H s b) = DatabaseError \<longrightarrow>
      fst (run (persist_block b) (snd s)) = False \<or>
      fst (run (persist_balances (snd (apply_block (utxos (fst s), balances (fst s)) b)))
        (snd (run (persist_block b) (snd s)))) = False)"
proof (intro conjI allI impI)
  let ?m = "apply_block (utxos (fst s), balances (fst s)) b"
  {
    fix db1
    assume r: "run (persist_block b) (snd s) = (False, db1)"
    from v r show "submit_block H s b = (DatabaseError, fst s, db1)"
      by (simp add: submit_block_def)
    from run_raises [OF r]
    show "\<exists>pre x post mid.
         persist_block b = pre @ x # post \<and> run pre (snd s) = (True, mid) \<and>
         step x mid = (False, db1) \<and> exec_all pre (fst (snd s)) = Some (fst db1)" .
  }
  {
    fix db0 db1
    assume "run (persist_block b) (snd s) = (True, db0) \<and>
      run (persist_balances (snd ?m)) db0 = (False, db1)"
    then have r0: "run (persist_block b) (snd s) = (True, db0)"
      and r1: "run (persist_balances (snd ?m)) db0 = (False, db1)" by simp_all
    from v r0 r1 show "submit_block H s b =
        (DatabaseError, (fst s)\<lparr>utxos := fst ?m, balances := snd ?m\<rparr>, db1)"
      by (simp add: submit_block_def Let_def)
    from run_raises [OF r1] obtain pre x post mid
      where a: "persist_balances (snd ?m) = pre @ x # post" "run pre db0 = (True, mid)"
        "step x mid = (False, db1)" "exec_all pre (fst db0) = Some (fst db1)" by blast
    from run_True [OF r0] a(4)
    have "exec_all (persist_block b @ pre) (fst (snd s)) = Some (fst db1)"
      unfolding exec_all_append by blast
    with a show "\<exists>pre x post mid.
         persist_balances (snd ?m) = pre @ x # post \<and>
         run pre db0 = (True, mid) \<and> step x mid = (False, db1) \<and>
         exec_all (persist_block b @ pre) (fst (snd s)) = Some (fst db1)" by blast
  }
  {
    assume f: "fst (submit_block H s b) = DatabaseError"
    obtain ok1 db0 where r0: "run (persist_block b) (snd s) = (ok1, db0)"
      by (cases "run (persist_block b) (snd s)")
    obtain ok2 db1 where r1: "run (persist_balances (snd ?m)) db0 = (ok2, db1)"
      by (cases "run (persist_balances (snd ?m)) db0")
    have "\<not> (ok1 \<and> ok2)"
    proof
      assume "ok1 \<and> ok2"
      with v r0 r1 have "fst (submit_block H s b) = BlockAccepted (height b)"
        by (simp add: submit_block_def Let_def)
      with f show False by simp
    qed
    with r0 r1 show "fst (run (persist_block b) (snd s)) = False \<or>
      fst (run (persist_balances (snd ?m)) (snd (run (persist_block b) (snd s)))) = False"
      by auto
  }
qed

theorem submit_store_failure_witness:
  "validate example_digest (fst (fresh None)) duplicate_tx_block = None \<and>
   run (persist_block duplicate_tx_block) (snd (fresh None)) = (False, tables_duplicate_tx, None) \<and>
   submit_block example_digest (fresh None) duplicate_tx_block
     = (DatabaseError, fst (fresh None), tables_duplicate_tx, None) \<and>
   validate example_digest (fst (fresh None)) overflow_block = None \<and>
   run (persist_block overflow_block) (snd (fresh None)) = (True, tables_overflow, None) \<and>
   run (persist_balances (snd (apply_block (utxos (fst (fresh None)), balances (fst (fresh None)))
     overflow_block))) (tables_overflow, None) = (False, tables_overflow, None) \<and>
   submit_block example_digest (fresh None) overflow_block =
     (DatabaseError,
      (fst (fresh None))\<lparr>utxos := fst (apply_block (utxos (fst (fresh None)),
          balances (fst (fresh None))) overflow_block),
        balances := snd (apply_block (utxos (fst (fresh None)), balances (fst (fresh None)))
          overflow_block)\<rparr>,
      tables_overflow, None)"
proof -
  have a: "validate example_digest (fst (fresh None)) duplicate_tx_block = None"
    and b: "run (persist_block duplicate_tx_block) (snd (fresh None)) = (False, tables_duplicate_tx, None)"
    and c: "validate example_digest (fst (fresh None)) overflow_block = None"
    and d: "run (persist_block overflow_block) (snd (fresh None)) = (True, tables_overflow, None)"
    and e: "run (persist_balances (snd (apply_block (utxos (fst (fresh None)),
      balances (fst (fresh None))) overflow_block))) (tables_overflow, None)
      = (False, tables_overflow, None)"
    by code_simp+
  from submit_store_failure [OF a] b
  have x: "submit_block example_digest (fresh None) duplicate_tx_block
     = (DatabaseError, fst (fresh None), tables_duplicate_tx, None)"
    by blast
  from submit_store_failure [OF c] d e
  have y: "submit_block example_digest (fresh None) overflow_block =
     (DatabaseError,
      (fst (fresh None))\<lparr>utxos := fst (apply_block (utxos (fst (fresh None)),
          balances (fst (fresh None))) overflow_block),
        balances := snd (apply_block (utxos (fst (fresh None)), balances (fst (fresh None)))
          overflow_block)\<rparr>,
      tables_overflow, None)"
    by blast
  from a b c d e x y show ?thesis by blast
qed

text \<open>
  The claim as stated fails twice over. A block whose outputs sum beyond \<open>INTEGER\<close> for
  one address is refused at the balance upsert, after its rows are written and after the
  UTXO map and the balance map are updated; a block that repeats a transaction id is
  refused at the second transaction row, and the block row and the first transaction
  stay in the store.
\<close>

theorem submit_atomicity_counterexample:
  "submit_block example_digest (fresh None) overflow_block
     = (DatabaseError, index_overflow, tables_overflow, None) \<and>
   utxos index_overflow \<noteq> utxos initial_state \<and>
   balances index_overflow \<noteq> balances initial_state \<and>
   tables_overflow \<noteq> empty_tables \<and>
   submit_block example_digest (fresh None) duplicate_tx_block
     = (DatabaseError, initial_state, tables_duplicate_tx, None) \<and>
   tables_duplicate_tx \<noteq> empty_tables"
  by code_simp

text \<open>
  Claim C4 (atomic rollback), as amended. The statements of a rollback run one by one, with
  no enclosing store transaction. A rollback that ends in a store failure leaves the
  in-memory index as it was. The store is left as the statements before the failure made
  it: unchanged when the first query fails; with the statements before the raising one
  when an \<open>UPDATE\<close> or \<open>DELETE\<close> of the undo raises; with the whole undo when the query
  for the sums fails; with the whole undo and the balance statements before the raising
  one when a balance statement raises.
\<close>

theorem rollback_store_failure:
  assumes f: "fst (rollback t s) = RollbackFailed"
  shows "fst (snd (rollback t s)) = fst s \<and>
    (\<exists>q. t = Fin q \<and> 1 \<le> q \<and> q \<le> of_int (currentHeight (fst s)) \<and>
      ((fst (query (select_deleted_txs t) (snd s)) = None \<and>
        snd (snd (rollback t s)) = snd (query (select_deleted_txs t) (snd s)) \<and>
        fst (snd (snd (rollback t s))) = fst (snd s)) \<or>
       (\<exists>D db1 pre x post mid.
          query (select_deleted_txs t) (snd s) = (Some D, db1) \<and>
          undo_stmts D \<lfloor>q\<rfloor> = pre @ x # post \<and> run pre db1 = (True, mid) \<and>
          step x mid = (False, snd (snd (rollback t s))) \<and>
          exec_all pre (fst (snd s)) = Some (fst (snd (snd (rollback t s))))) \<or>
       (\<exists>D db1 db2.
          query (select_deleted_txs t) (snd s) = (Some D, db1) \<and>
          run (undo_stmts D \<lfloor>q\<rfloor>) db1 = (True, db2) \<and>
          fst (query select_unspent_sums db2) = None \<and>
          snd (snd (rollback t s)) = snd (query select_unspent_sums db2) \<and>
          exec_all (undo_stmts D \<lfloor>q\<rfloor>) (fst (snd s)) = Some (fst (snd (snd (rollback t s))))) \<or>
       (\<exists>D db1 db2 rows db3 pre x post mid.
          query (select_deleted_txs t) (snd s) = (Some D, db1) \<and>
          run (undo_stmts D \<lfloor>q\<rfloor>) db1 = (True, db2) \<and>
          query select_unspent_sums db2 = (Some rows, db3) \<and>
          DeleteBalances # map (\<lambda>r. InsertBalance (fst r) (snd r)) rows = pre @ x # post \<and>
          run pre db3 = (True, mid) \<and> step x mid = (False, snd (snd (rollback t s))) \<and>
          exec_all (undo_stmts D \<lfloor>q\<rfloor> @ pre) (fst (snd s)) = Some (fst (snd (snd (rollback t s)))))))"
proof (cases t)
  case (Fin q)
  have q1: "\<not> q < 1" using f Fin by (auto simp: rollback_below_one)
  have qh: "\<not> of_int (currentHeight (fst s)) < q"
    using f Fin q1 by (auto simp: rollback_above_head)
  obtain oD db1 where sel: "query (select_deleted_txs (Fin q)) (snd s) = (oD, db1)"
    by (cases "query (select_deleted_txs (Fin q)) (snd s)")
  have e1: "fst db1 = fst (snd s)"
    using query_tables [of "select_deleted_txs (Fin q)" "snd s"] sel by simp
  show ?thesis
  proof (cases oD)
    case None
    with q1 qh sel have r: "rollback (Fin q) s = (RollbackFailed, fst s, db1)"
      by (simp add: rollback_def)
    from r sel None e1 q1 qh show ?thesis
      unfolding Fin by simp
  next
    case (Some D)
    obtain ok2 db2 where r1: "run (undo_stmts D \<lfloor>q\<rfloor>) db1 = (ok2, db2)"
      by (cases "run (undo_stmts D \<lfloor>q\<rfloor>) db1")
    show ?thesis
    proof (cases ok2)
      case False
      with q1 qh sel Some r1 have r: "rollback (Fin q) s = (RollbackFailed, fst s, db2)"
        by (simp add: rollback_def)
      from r1 False have "run (undo_stmts D \<lfloor>q\<rfloor>) db1 = (False, db2)" by simp
      from run_raises [OF this] obtain pre x post mid
        where a: "undo_stmts D \<lfloor>q\<rfloor> = pre @ x # post" "run pre db1 = (True, mid)"
          "step x mid = (False, db2)" "exec_all pre (fst db1) = Some (fst db2)" by blast
      have "\<exists>D db1 pre x post mid.
          query (select_deleted_txs (Fin q)) (snd s) = (Some D, db1) \<and>
          undo_stmts D \<lfloor>q\<rfloor> = pre @ x # post \<and> run pre db1 = (True, mid) \<and>
          step x mid = (False, db2) \<and> exec_all pre (fst (snd s)) = Some (fst db2)"
        using sel Some a e1 by (simp only:) blast
      with r q1 qh show ?thesis
        unfolding Fin by (simp only: fst_conv snd_conv) auto
    next
      case True
      with r1 have r1': "run (undo_stmts D \<lfloor>q\<rfloor>) db1 = (True, db2)" by simp
      from run_True [OF r1'] e1
      have u: "exec_all (undo_stmts D \<lfloor>q\<rfloor>) (fst (snd s)) = Some (fst db2)" by simp
      obtain orows db3 where agg: "query select_unspent_sums db2 = (orows, db3)"
        by (cases "query select_unspent_sums db2")
      have e3: "fst db3 = fst db2"
        using query_tables [of select_unspent_sums db2] agg by simp
      show ?thesis
      proof (cases orows)
        case None
        with q1 qh sel Some r1' agg have r: "rollback (Fin q) s = (RollbackFailed, fst s, db3)"
          by (simp add: rollback_def)
        have "query (select_deleted_txs (Fin q)) (snd s) = (Some D, db1) \<and>
          run (undo_stmts D \<lfloor>q\<rfloor>) db1 = (True, db2) \<and>
          fst (query select_unspent_sums db2) = None \<and>
          db3 = snd (query select_unspent_sums db2) \<and>
          exec_all (undo_stmts D \<lfloor>q\<rfloor>) (fst (snd s)) = Some (fst db3)"
          using sel Some r1' agg None u e3 by simp
        then have "\<exists>D db1 db2.
          query (select_deleted_txs (Fin q)) (snd s) = (Some D, db1) \<and>
          run (undo_stmts D \<lfloor>q\<rfloor>) db1 = (True, db2) \<and>
          fst (query select_unspent_sums db2) = None \<and>
          db3 = snd (query select_unspent_sums db2) \<and>
          exec_all (undo_stmts D \<lfloor>q\<rfloor>) (fst (snd s)) = Some (fst db3)"
          by blast
        with r q1 qh show ?thesis
          unfolding Fin by (simp only: fst_conv snd_conv) auto
      next
        case rows: (Some rows)
        obtain ok4 db4
          where r2: "run (DeleteBalances # map (\<lambda>r. InsertBalance (fst r) (snd r)) rows) db3 = (ok4, db4)"
          by (cases "run (DeleteBalances # map (\<lambda>r. InsertBalance (fst r) (snd r)) rows) db3")
        have nok: "\<not> ok4"
        proof
          assume ok4
          with q1 qh sel Some r1' agg rows r2
          have "fst (rollback (Fin q) s) = RollbackSuccessful \<lfloor>q\<rfloor>"
            by (simp add: rollback_def Let_def del: run.simps)
          with f Fin show False by simp
        qed
        with r2 have r2': "run (DeleteBalances # map (\<lambda>r. InsertBalance (fst r) (snd r)) rows) db3
          = (False, db4)" by simp
        from q1 qh sel Some r1' agg rows r2'
        have r: "rollback (Fin q) s = (RollbackFailed, fst s, db4)"
          by (simp add: rollback_def del: run.simps)
        from run_raises [OF r2'] obtain pre x post mid
          where a: "DeleteBalances # map (\<lambda>r. InsertBalance (fst r) (snd r)) rows = pre @ x # post"
            "run pre db3 = (True, mid)" "step x mid = (False, db4)"
            "exec_all pre (fst db3) = Some (fst db4)" by blast
        from u a(4) e3 have "exec_all (undo_stmts D \<lfloor>q\<rfloor> @ pre) (fst (snd s)) = Some (fst db4)"
          unfolding exec_all_append by simp
        with a have "\<exists>D db1 db2 rows db3 pre x post mid.
          query (select_deleted_txs (Fin q)) (snd s) = (Some D, db1) \<and>
          run (undo_stmts D \<lfloor>q\<rfloor>) db1 = (True, db2) \<and>
          query select_unspent_sums db2 = (Some rows, db3) \<and>
          DeleteBalances # map (\<lambda>r. InsertBalance (fst r) (snd r)) rows = pre @ x # post \<and>
          run pre db3 = (True, mid) \<and> step x mid = (False, db4) \<and>
          exec_all (undo_stmts D \<lfloor>q\<rfloor> @ pre) (fst (snd s)) = Some (fst db4)"
          using sel Some r1' agg rows by (simp only:) blast
        with r q1 qh show ?thesis
          unfolding Fin by (simp only: fst_conv snd_conv) auto
      qed
    qed
  qed
qed (insert f, simp_all add: rollback_def)

theorem rollback_store_failure_witness:
  "fst (rollback (Fin 1) (index2, tables2, Some 2)) = RollbackFailed \<and>
   fst (snd (rollback (Fin 1) (index2, tables2, Some 2))) = index2 \<and>
   query (select_deleted_txs (Fin 1)) (tables2, Some 2) = (Some [''tx2''], tables2, Some 1) \<and>
   undo_stmts [''tx2''] 1 =
     [ResurrectSpentBy [''tx2'']] @ DeleteOutputsOf [''tx2''] # [DeleteBlocksAbove 1, DeleteInputsOf [''tx2'']] \<and>
   run [ResurrectSpentBy [''tx2'']] (tables2, Some 1) = (True, tables2_interrupted, Some 0) \<and>
   step (DeleteOutputsOf [''tx2'']) (tables2_interrupted, Some 0) = (False, tables2_interrupted, None) \<and>
   snd (snd (rollback (Fin 1) (index2, tables2, Some 2))) = (tables2_interrupted, None)"
proof -
  have a: "fst (rollback (Fin 1) (index2, tables2, Some 2)) = RollbackFailed"
    by code_simp
  have b: "query (select_deleted_txs (Fin 1)) (tables2, Some 2) = (Some [''tx2''], tables2, Some 1)"
    "undo_stmts [''tx2''] 1 =
     [ResurrectSpentBy [''tx2'']] @ DeleteOutputsOf [''tx2''] # [DeleteBlocksAbove 1, DeleteInputsOf [''tx2'']]"
    "run [ResurrectSpentBy [''tx2'']] (tables2, Some 1) = (True, tables2_interrupted, Some 0)"
    "step (DeleteOutputsOf [''tx2'']) (tables2_interrupted, Some 0) = (False, tables2_interrupted, None)"
    "snd (snd (rollback (Fin 1) (index2, tables2, Some 2))) = (tables2_interrupted, None)"
    by code_simp+
  from rollback_store_failure [OF a]
  have "fst (snd (rollback (Fin 1) (index2, tables2, Some 2))) = fst (index2, tables2, Some (2::nat))"
    by (rule conjunct1)
  with a b show ?thesis by simp
qed

text \<open>
  The claim as stated: after two accepted blocks, a rollback to height 1 whose third
  statement meets a failing connection has already turned the spent output of the first
  block back to unspent, and the outputs of the second block are still there.
\<close>

theorem rollback_atomicity_counterexample:
  "play example_digest [Submit block1, Submit block2] (fresh (Some 15)) = Some (index2, tables2, Some 2) \<and>
   rollback (Fin 1) (index2, tables2, Some 2) = (RollbackFailed, index2, tables2_interrupted, None) \<and>
   tables2_interrupted \<noteq> tables2"
  by code_simp

text \<open>
  Claim C5 (rollback parameter), as amended. A rollback fails with \<open>InvalidHeightParam\<close>
  exactly when the target is not a finite number or is below 1 (a finite non-integer from 1
  on, such as 1.5, passes this check); it fails with \<open>TargetAboveHead\<close> exactly when the
  target is finite, at least 1 and above the current height; in both cases neither the
  index nor the store changes.
\<close>

theorem rollback_parameter_errors:
  "(fst (rollback t s) = InvalidHeightParam \<longleftrightarrow> \<not> (\<exists>q. t = Fin q \<and> 1 \<le> q)) \<and>
   (fst (rollback t s) = TargetAboveHead \<longleftrightarrow>
      (\<exists>q. t = Fin q \<and> 1 \<le> q \<and> of_int (currentHeight (fst s)) < q)) \<and>
   (fst (rollback t s) = InvalidHeightParam \<or> fst (rollback t s) = TargetAboveHead \<longrightarrow>
      snd (rollback t s) = s)"
proof (cases t)
  case (Fin q)
  show ?thesis
  proof (cases "q < 1")
    case True
    with Fin show ?thesis by (simp add: rollback_below_one)
  next
    case False
    show ?thesis
    proof (cases "of_int (currentHeight (fst s)) < q")
      case True
      with Fin False show ?thesis by (simp add: rollback_above_head)
    next
      case nh: False
      from rollback_store_branch [OF False nh] Fin False nh show ?thesis by auto
    qed
  qed
qed (simp_all add: rollback_def)

theorem rollback_parameter_errors_witness:
  "fst (rollback (Fin 5) (index3, tables3, None)) = TargetAboveHead \<and>
   snd (rollback (Fin 5) (index3, tables3, None)) = (index3, tables3, None) \<and>
   fst (rollback (Fin 0) (index3, tables3, None)) = InvalidHeightParam \<and>
   fst (rollback NaN (index3, tables3, None)) = InvalidHeightParam \<and>
   snd (rollback NaN (index3, tables3, None)) = (index3, tables3, None)"
proof -
  have a: "fst (rollback (Fin 5) (index3, tables3, None)) = TargetAboveHead"
    and b: "fst (rollback (Fin 0) (index3, tables3, None)) = InvalidHeightParam"
    and c: "fst (rollback NaN (index3, tables3, None)) = InvalidHeightParam"
    by code_simp+
  from rollback_parameter_errors [of "Fin 5" "(index3, tables3, None)"] a
    rollback_parameter_errors [of NaN "(index3, tables3, None)"] b c
  show ?thesis by simp
qed

text \<open>
  The claim as stated rejects 1.5 with \<open>InvalidHeightParam\<close>. On a fresh instance the
  answer is \<open>TargetAboveHead\<close>; at height 3 the number reaches the store, which refuses it
  as a parameter of an \<open>INTEGER\<close> comparison.
\<close>

theorem rollback_parameter_counterexample:
  "fst (rollback (Fin (3 / 2)) (fresh None)) = TargetAboveHead \<and>
   fst (rollback (Fin (3 / 2)) (index3, tables3, None)) = RollbackFailed \<and>
   fst (rollback (Fin (3 / 2)) (index3, tables3, None)) \<noteq> InvalidHeightParam"
  by code_simp

text \<open>
  Claim C6 (intra-block visibility), as amended. Validation reads the UTXO map of the
  state before the block. After every history of accepted operations, a block in which a
  transaction \<open>t2\<close> spends an output of a transaction \<open>t1\<close> of the same block, in either
  order, is never accepted. When the id of \<open>t1\<close> is new to the chain the key is absent from
  the map and the validator rejects the block; the error is \<open>InputNotFound\<close> naming that key
  when the height rule holds, the transactions before \<open>t2\<close> pass their checks and the
  inputs of \<open>t2\<close> before it are present.
\<close>

theorem same_block_spend_rejected:
  assumes p: "play H ops (fresh f) = Some s"
    and t1: "t1 \<in> set (transactions b)" and t2: "t2 \<in> set (transactions b)"
    and i: "i \<in> set (inputs t2)" and ref: "txId i = t_id t1"
  shows "(\<forall>n s'. submit_block H s b \<noteq> (BlockAccepted n, s')) \<and>
    (t_id t1 \<notin> t_id ` set (txs_of (blocks (fst s))) \<longrightarrow>
       utxoKey (txId i) (index i) \<notin> fst ` set (utxos (fst s)) \<and> validate H (fst s) b \<noteq> None) \<and>
    (\<forall>pre post ipre ipost.
       transactions b = pre @ t2 # post \<and> inputs t2 = ipre @ i # ipost \<and>
       height_check (fst s) b = None \<and> check_transactions (utxos (fst s)) pre = None \<and>
       (\<forall>j \<in> set ipre. utxoKey (txId j) (index j) \<in> fst ` set (utxos (fst s))) \<and>
       utxoKey (txId i) (index i) \<notin> fst ` set (utxos (fst s)) \<longrightarrow>
       validate H (fst s) b = Some (InputNotFound (utxoKey (txId i) (index i))))"
proof (intro conjI allI impI)
  let ?J = "blocks (fst s)"
  have inv: "inv s" by (rule play_inv [OF inv_fresh p])
  then have g: "good ?J" and u: "utxos (fst s) = fst (rebuild ?J)" by (simp_all add: inv_def)
  have key: "utxoKey (txId i) (index i) \<in> in_keys t2"
    using i by (simp add: in_keys_def)
  have r: "(txId i, index i) \<in> refs t2"
    using i by (auto simp: refs_def)
  {
    fix n s'
    show "submit_block H s b \<noteq> (BlockAccepted n, s')"
    proof
      assume a: "submit_block H s b = (BlockAccepted n, s')"
      note si = submit_inv [OF inv a]
      from si have "good (?J @ [b])" by (simp add: inv_def)
      then have ok: "block_ok ?J b" by (simp add: good_snoc)
      from ok t2 have "in_keys t2 \<subseteq> fst ` set (fst (rebuild ?J))" by (simp add: block_ok_def)
      from refs_in_journal [OF g this] r have "txId i \<in> t_id ` set (txs_of ?J)" by force
      moreover from ok t1 have "t_id t1 \<notin> t_id ` set (txs_of ?J)" by (simp add: block_ok_def)
      ultimately show False using ref by simp
    qed
  }
  {
    assume fresh: "t_id t1 \<notin> t_id ` set (txs_of ?J)"
    show miss: "utxoKey (txId i) (index i) \<notin> fst ` set (utxos (fst s))"
    proof
      assume "utxoKey (txId i) (index i) \<in> fst ` set (utxos (fst s))"
      with rebuild_good [OF g] u have "utxoKey (txId i) (index i) \<in> fst ` unspent_entries ?J"
        by simp
      then obtain t' i' out where "utxoKey (txId i) (index i) = utxoKey t' i'"
        "(t', i', out) \<in> produced ?J" unfolding key_in_unspent_entries by blast
      then have "txId i \<in> t_id ` set (txs_of ?J)"
        by (auto simp: utxoKey_inj dest: produced_txid)
      with fresh ref show False by simp
    qed
    show "validate H (fst s) b \<noteq> None"
    proof
      assume "validate H (fst s) b = None"
      from validate_None(2) [OF this] t2 key miss show False by blast
    qed
  }
  {
    fix pre post ipre ipost
    assume "transactions b = pre @ t2 # post \<and> inputs t2 = ipre @ i # ipost \<and>
       height_check (fst s) b = None \<and> check_transactions (utxos (fst s)) pre = None \<and>
       (\<forall>j \<in> set ipre. utxoKey (txId j) (index j) \<in> fst ` set (utxos (fst s))) \<and>
       utxoKey (txId i) (index i) \<notin> fst ` set (utxos (fst s))"
    then show "validate H (fst s) b = Some (InputNotFound (utxoKey (txId i) (index i)))"
      by (intro first_missing_input) blast+
  }
qed

theorem same_block_spend_rejected_witness:
  "play example_digest [] (fresh None) = Some (fresh None) \<and>
   coin_t1 \<in> set (transactions chained_block) \<and> spend_t2 \<in> set (transactions chained_block) \<and>
   hd (inputs spend_t2) \<in> set (inputs spend_t2) \<and> txId (hd (inputs spend_t2)) = t_id coin_t1 \<and>
   validate example_digest initial_state chained_block = Some (InputNotFound ''t1:0'') \<and>
   validate example_digest initial_state chained_block_reversed = Some (InputNotFound ''t1:0'') \<and>
   submit_block example_digest (fresh None) chained_block
     = (BadRequest (InputNotFound ''t1:0''), fresh None)"
proof -
  have p: "play example_digest [] (fresh None) = Some (fresh None)" by simp
  have m: "coin_t1 \<in> set (transactions chained_block)" "spend_t2 \<in> set (transactions chained_block)"
    "hd (inputs spend_t2) \<in> set (inputs spend_t2)" "txId (hd (inputs spend_t2)) = t_id coin_t1"
    by code_simp+
  have c: "transactions chained_block = [coin_t1] @ spend_t2 # [] \<and>
    inputs spend_t2 = [] @ hd (inputs spend_t2) # [] \<and>
    height_check (fst (fresh None)) chained_block = None \<and>
    check_transactions (utxos (fst (fresh None))) [coin_t1] = None \<and>
    (\<forall>j \<in> set []. utxoKey (txId j) (index j) \<in> fst ` set (utxos (fst (fresh None)))) \<and>
    utxoKey (txId (hd (inputs spend_t2))) (index (hd (inputs spend_t2)))
      \<notin> fst ` set (utxos (fst (fresh None)))"
    by code_simp
  have k: "utxoKey (txId (hd (inputs spend_t2))) (index (hd (inputs spend_t2))) = ''t1:0''"
    by code_simp
  have f: "fst (fresh None) = initial_state" by (simp add: fresh_def)
  from same_block_spend_rejected [OF p m] c
  have "validate example_digest (fst (fresh None)) chained_block
      = Some (InputNotFound (utxoKey (txId (hd (inputs spend_t2))) (index (hd (inputs spend_t2)))))"
    by blast
  then have v: "validate example_digest initial_state chained_block = Some (InputNotFound ''t1:0'')"
    by (simp only: k f)
  have r: "validate example_digest initial_state chained_block_reversed = Some (InputNotFound ''t1:0'')"
    "submit_block example_digest (fresh None) chained_block
     = (BadRequest (InputNotFound ''t1:0''), fresh None)"
    by code_simp+
  from p m v r show ?thesis by blast
qed

text \<open>
  The claim as stated names that key in every case. When an earlier input of \<open>t2\<close> is
  missing as well, the error names the earlier key.
\<close>

theorem same_block_spend_counterexample:
  "hd (transactions same_block_spend) \<in> set (transactions same_block_spend) \<and>
   hd (tl (transactions same_block_spend)) \<in> set (transactions same_block_spend) \<and>
   \<lparr>txId = t_id (hd (transactions same_block_spend)), index = 0\<rparr>
     \<in> set (inputs (hd (tl (transactions same_block_spend)))) \<and>
   validate example_digest initial_state same_block_spend = Some (InputNotFound ''ghost:0'') \<and>
   validate example_digest initial_state same_block_spend \<noteq> Some (InputNotFound ''t1:0'')"
  by code_simp

text \<open>
  Claim C7 (balance derivation). Two histories of accepted operations after which the
  balance entry of an address is not the sum of its outputs in the UTXO map. After three
  blocks, a rollback to height 2 and a block that pays 6 to \<open>addr2\<close>, the entry of
  \<open>addr2\<close> is the string \<open>'46'\<close> and its outputs sum to 10. After one block that pays 10 to
  the address \<open>__proto__\<close>, that address has an output of 10 and no entry: the assignment
  to the property \<open>__proto__\<close> of a plain object stores nothing.
\<close>

theorem balances_diverge_from_utxos:
  "(case play example_digest
      [Submit block1, Submit block2, Submit block3, Rollback (Fin 2), Submit block3b] (fresh None) of
      None \<Rightarrow> False
    | Some s \<Rightarrow>
        map_of (balances (fst s)) ''addr2'' = Some (Str ''46'') \<and>
        utxo_total (utxos (fst s)) ''addr2'' = 10 \<and>
        get_balance ''addr2'' (snd s) = Some 46) \<and>
   (case play example_digest [Submit proto_block] (fresh None) of
      None \<Rightarrow> False
    | Some s \<Rightarrow>
        balances (fst s) = [] \<and>
        utxos (fst s) = [(''txp:0'', \<lparr>address = ''__proto__'', val = 10\<rparr>)] \<and>
        utxo_total (utxos (fst s)) ''__proto__'' = 10 \<and>
        get_balance ''__proto__'' (snd s) = Some 0)"
  by code_simp

text \<open>
  Claim C8 (UTXO-set soundness: no output is spent twice). The code accepts a block whose
  two transactions both spend the output \<open>tx1:0\<close> of value 10: each input is looked up in the
  UTXO map of the state before the block, so both are found, and each transaction
  conserves value. The journal then holds two inputs naming one output, and the UTXO map
  holds 20 where 10 was minted.
\<close>

theorem double_spend_accepted:
  "play example_digest [Submit block1, Submit double_spend_block] (fresh None)
     = Some (index_double_spend, tables_double_spend, None) \<and>
   map inputs (transactions double_spend_block)
     = [[\<lparr>txId = ''tx1'', index = 0\<rparr>], [\<lparr>txId = ''tx1'', index = 0\<rparr>]] \<and>
   utxo_total (utxos index1) ''addr1'' = 10 \<and>
   utxo_total (utxos index_double_spend) ''bob'' = 10 \<and>
   utxo_total (utxos index_double_spend) ''carol'' = 10"
  by code_simp

text \<open>
  Claim C9 (empty blocks), as amended. A block with no transactions whose height is the
  current height plus one and whose id is the digest of the decimal height passes
  validation. It is accepted when the store takes the block row and the balance upserts;
  whenever it is accepted, the UTXO map and the balance map are unchanged, the block is
  appended and the current height is incremented.
\<close>

theorem empty_block_accepted:
  assumes e: "transactions b = []" and h: "height b = currentHeight (fst s) + 1"
    and d: "b_id b = H (toString (height b))"
  shows "validate H (fst s) b = None \<and>
    (\<forall>db1 db2. run [InsertBlock (b_id b) (height b)] (snd s) = (True, db1) \<and>
        run (persist_balances (balances (fst s))) db1 = (True, db2) \<longrightarrow>
      submit_block H s b =
        (BlockAccepted (height b),
         (fst s)\<lparr>blocks := blocks (fst s) @ [b], currentHeight := currentHeight (fst s) + 1\<rparr>, db2)) \<and>
    (\<forall>n s'. submit_block H s b = (BlockAccepted n, s') \<longrightarrow>
      utxos (fst s') = utxos (fst s) \<and> balances (fst s') = balances (fst s) \<and>
      currentHeight (fst s') = currentHeight (fst s) + 1 \<and> blocks (fst s') = blocks (fst s) @ [b])"
proof (intro conjI allI impI)
  show v: "validate H (fst s) b = None"
    using e h d by (simp add: validate_def dataToHash_empty)
  have p: "persist_block b = [InsertBlock (b_id b) (height b)]"
    using e by (simp add: persist_block_def)
  have m: "apply_block (utxos (fst s), balances (fst s)) b = (utxos (fst s), balances (fst s))"
    using e by (rule apply_block_empty)
  {
    fix db1 db2
    assume "run [InsertBlock (b_id b) (height b)] (snd s) = (True, db1) \<and>
        run (persist_balances (balances (fst s))) db1 = (True, db2)"
    then show "submit_block H s b =
        (BlockAccepted (height b),
         (fst s)\<lparr>blocks := blocks (fst s) @ [b], currentHeight := currentHeight (fst s) + 1\<rparr>, db2)"
      using v h by (simp add: submit_block_def p m Let_def del: run.simps)
  }
  {
    fix n s'
    assume a: "submit_block H s b = (BlockAccepted n, s')"
    from a obtain db1 db2
      where s': "s' = ((fst s)\<lparr>utxos := fst (apply_block (utxos (fst s), balances (fst s)) b),
                  balances := snd (apply_block (utxos (fst s), balances (fst s)) b),
                  blocks := blocks (fst s) @ [b], currentHeight := height b\<rparr>, db2)"
      by (rule submit_accepted)
    show "utxos (fst s') = utxos (fst s)" by (simp add: s' m)
    show "balances (fst s') = balances (fst s)" by (simp add: s' m)
    show "currentHeight (fst s') = currentHeight (fst s) + 1" by (simp add: s' h)
    show "blocks (fst s') = blocks (fst s) @ [b]" by (simp add: s')
  }
qed

theorem empty_block_accepted_witness:
  "transactions (empty_block 4) = [] \<and>
   height (empty_block 4) = currentHeight (fst (index3, tables3, None)) + 1 \<and>
   b_id (empty_block 4) = example_digest (toString (height (empty_block 4))) \<and>
   validate example_digest index3 (empty_block 4) = None \<and>
   submit_block example_digest (index3, tables3, None) (empty_block 4) =
     (BlockAccepted 4, index3\<lparr>blocks := blocks index3 @ [empty_block 4], currentHeight := 4\<rparr>,
      tables3\<lparr>blocks_t := blocks_t tables3 @ [(b_id (empty_block 4), 4)]\<rparr>, None)"
proof -
  have a: "transactions (empty_block 4) = []"
    and b: "height (empty_block 4) = currentHeight (fst (index3, tables3, None)) + 1"
    and c: "b_id (empty_block 4) = example_digest (toString (height (empty_block 4)))"
    by code_simp+
  have d: "submit_block example_digest (index3, tables3, None) (empty_block 4) =
     (BlockAccepted 4, index3\<lparr>blocks := blocks index3 @ [empty_block 4], currentHeight := 4\<rparr>,
      tables3\<lparr>blocks_t := blocks_t tables3 @ [(b_id (empty_block 4), 4)]\<rparr>, None)"
    by code_simp
  from empty_block_accepted [where b = "empty_block 4" and s = "(index3, tables3, None)"
      and H = example_digest, OF a b c] a b c d
  show ?thesis by simp
qed

text \<open>
  The claim as stated accepts every such block. The hash input is the height followed by
  the transaction ids with no delimiter: a first block with the single transaction id
  \<open>0\<close> has the id of the empty block of height 10, and after nine accepted blocks the
  store refuses the row of that empty block as a duplicate key.
\<close>

theorem empty_block_counterexample:
  "(case play example_digest (map Submit colliding_chain) (fresh None) of
      None \<Rightarrow> False
    | Some s \<Rightarrow>
        transactions (empty_block 10) = [] \<and>
        height (empty_block 10) = currentHeight (fst s) + 1 \<and>
        b_id (empty_block 10) = example_digest (toString (height (empty_block 10))) \<and>
        b_id (empty_block 10) = b_id (hd colliding_chain) \<and>
        submit_block example_digest s (empty_block 10) = (DatabaseError, s))"
  by code_simp




end
